theory Spec2Isabelle
  imports Main "HOL-Library.Word" "HOL-Library.Sublist"
begin

section \<open>JavaScript strings and the built-ins the resolvers call\<close>

text \<open>
  A JavaScript string is a sequence of 16-bit code units; \<open>length\<close>, \<open>slice\<close>, \<open>trim\<close>
  and regular expressions without the \<open>u\<close> flag all count code units. An absent value
  (\<open>undefined\<close> or \<open>null\<close>) is \<open>None\<close>; a string is falsy exactly when it is empty.
\<close>

type_synonym jsstring = "16 word list"

definition js :: "string \<Rightarrow> jsstring" where
  "js s = map of_char s"

text \<open>\<open>String(x || "")\<close>: an absent or empty value becomes the empty string.\<close>

definition or_empty :: "jsstring option \<Rightarrow> jsstring" where
  "or_empty x = (case x of None \<Rightarrow> [] | Some s \<Rightarrow> s)"

text \<open>A template literal renders \<open>null\<close> as the four letters \<open>null\<close>.\<close>

definition template :: "jsstring option \<Rightarrow> jsstring" where
  "template x = (case x of None \<Rightarrow> js ''null'' | Some s \<Rightarrow> s)"

text \<open>Truthiness of an optional string: present and not empty.\<close>

definition truthy :: "jsstring option \<Rightarrow> bool" where
  "truthy x = (case x of None \<Rightarrow> False | Some s \<Rightarrow> s \<noteq> [])"

text \<open>
  \<open>String.prototype.trim\<close> removes WhiteSpace and LineTerminator code units from both
  ends: TAB, LF, VT, FF, CR, SPACE, NBSP, U+1680, U+2000..U+200A, U+2028, U+2029, U+202F,
  U+205F, U+3000 and U+FEFF.
\<close>

definition is_white_space :: "16 word \<Rightarrow> bool" where
  "is_white_space u \<longleftrightarrow>
     u \<in> set [0x9, 0xA, 0xB, 0xC, 0xD, 0x20, 0xA0, 0x1680, 0x2028, 0x2029, 0x202F, 0x205F,
              0x3000, 0xFEFF]
     \<or> (0x2000 \<le> u \<and> u \<le> 0x200A)"

definition trim :: "jsstring \<Rightarrow> jsstring" where
  "trim s = rev (dropWhile is_white_space (rev (dropWhile is_white_space s)))"

text \<open>
  \<open>String.prototype.toLowerCase\<close> applies the Unicode case mapping, a table that is not
  part of the repository: every definition that lower-cases takes the mapping as its
  first argument \<open>lc\<close>. \<open>toLowerCase_ascii\<close> is what the mapping does on strings of ASCII
  code units, and serves as the instance for concrete inputs.
\<close>

definition is_ascii :: "16 word \<Rightarrow> bool" where
  "is_ascii u \<longleftrightarrow> u < 0x80"

definition toLowerCase_ascii :: "jsstring \<Rightarrow> jsstring" where
  "toLowerCase_ascii s = map (\<lambda>u. if 0x41 \<le> u \<and> u \<le> 0x5A then u + 0x20 else u) s"

subsection \<open>Percent-encoding\<close>

datatype js_error = URIError | FetchFailed | Aborted | SyntaxError

definition is_lead :: "16 word \<Rightarrow> bool" where
  "is_lead u \<longleftrightarrow> 0xD800 \<le> u \<and> u \<le> 0xDBFF"

definition is_trail :: "16 word \<Rightarrow> bool" where
  "is_trail u \<longleftrightarrow> 0xDC00 \<le> u \<and> u \<le> 0xDFFF"

definition surrogate_pair :: "16 word \<Rightarrow> 16 word \<Rightarrow> nat" where
  "surrogate_pair hi lo = 0x10000 + (unat hi - 0xD800) * 0x400 + (unat lo - 0xDC00)"

definition utf8 :: "nat \<Rightarrow> nat list" where
  "utf8 cp =
     (if cp < 0x80 then [cp]
      else if cp < 0x800 then [0xC0 + cp div 0x40, 0x80 + cp mod 0x40]
      else if cp < 0x10000 then
        [0xE0 + cp div 0x1000, 0x80 + (cp div 0x40) mod 0x40, 0x80 + cp mod 0x40]
      else
        [0xF0 + cp div 0x40000, 0x80 + (cp div 0x1000) mod 0x40,
         0x80 + (cp div 0x40) mod 0x40, 0x80 + cp mod 0x40])"

definition hex_digit :: "nat \<Rightarrow> 16 word" where
  "hex_digit n = (if n < 10 then 0x30 + of_nat n else 0x41 + of_nat (n - 10))"

definition percent_byte :: "nat \<Rightarrow> jsstring" where
  "percent_byte b = [0x25, hex_digit (b div 16), hex_digit (b mod 16)]"

definition percent_utf8 :: "nat \<Rightarrow> jsstring" where
  "percent_utf8 cp = concat (map percent_byte (utf8 cp))"

definition is_alnum :: "16 word \<Rightarrow> bool" where
  "is_alnum u \<longleftrightarrow>
     (0x41 \<le> u \<and> u \<le> 0x5A) \<or> (0x61 \<le> u \<and> u \<le> 0x7A) \<or> (0x30 \<le> u \<and> u \<le> 0x39)"

text \<open>
  \<open>encodeURIComponent\<close> leaves letters, digits and \<open>- _ . ! ~ * ' ( )\<close> as they are and
  writes every other code point as the \<open>%XX\<close> octets of its UTF-8 form. A surrogate code
  unit that is not part of a pair makes it throw \<open>URIError\<close>.
\<close>

definition uri_unescaped :: "16 word \<Rightarrow> bool" where
  "uri_unescaped u \<longleftrightarrow>
     is_alnum u \<or> u \<in> set [0x2D, 0x5F, 0x2E, 0x21, 0x7E, 0x2A, 0x27, 0x28, 0x29]"

fun encodeURIComponent :: "jsstring \<Rightarrow> js_error + jsstring" where
  "encodeURIComponent [] = Inr []"
| "encodeURIComponent (c # cs) =
     (if uri_unescaped c then
        (case encodeURIComponent cs of Inl e \<Rightarrow> Inl e | Inr r \<Rightarrow> Inr (c # r))
      else if is_trail c then Inl URIError
      else if is_lead c then
        (case cs of
           [] \<Rightarrow> Inl URIError
         | d # ds \<Rightarrow>
             if is_trail d then
               (case encodeURIComponent ds of
                  Inl e \<Rightarrow> Inl e
                | Inr r \<Rightarrow> Inr (percent_utf8 (surrogate_pair c d) @ r))
             else Inl URIError)
      else
        (case encodeURIComponent cs of
           Inl e \<Rightarrow> Inl e
         | Inr r \<Rightarrow> Inr (percent_utf8 (unat c) @ r)))"

text \<open>
  \<open>URLSearchParams.prototype.toString\<close> (the form-urlencoded serializer): an unpaired
  surrogate becomes U+FFFD, a space becomes \<open>+\<close>, letters, digits and \<open>* - . _\<close> stay,
  every other octet of the UTF-8 form is written \<open>%XX\<close>. It never throws.
\<close>

definition form_unescaped :: "16 word \<Rightarrow> bool" where
  "form_unescaped u \<longleftrightarrow> is_alnum u \<or> u \<in> set [0x2A, 0x2D, 0x2E, 0x5F]"

fun form_urlencode :: "jsstring \<Rightarrow> jsstring" where
  "form_urlencode [] = []"
| "form_urlencode (c # cs) =
     (if form_unescaped c then c # form_urlencode cs
      else if c = 0x20 then 0x2B # form_urlencode cs
      else if is_trail c then percent_utf8 0xFFFD @ form_urlencode cs
      else if is_lead c then
        (case cs of
           [] \<Rightarrow> percent_utf8 0xFFFD
         | d # ds \<Rightarrow>
             if is_trail d then percent_utf8 (surrogate_pair c d) @ form_urlencode ds
             else percent_utf8 0xFFFD @ form_urlencode cs)
      else percent_utf8 (unat c) @ form_urlencode cs)"

section \<open>Artwork resolver\<close>

text \<open>What one request to an external service can end in.\<close>

datatype 'a http_result =
  TransportFailure | Timeout | NonSuccessStatus | MalformedBody | Success 'a

record song_result =
  artworkUrl100 :: "jsstring option"

type_synonym poster_cache = "jsstring \<rightharpoonup> jsstring"

definition POSTER_PLACEHOLDER :: jsstring where
  "POSTER_PLACEHOLDER = js ''https://dummyimage.com/600x600/111/fff&text=No+Cover''"

definition keyOf :: "(jsstring \<Rightarrow> jsstring) \<Rightarrow> jsstring option \<Rightarrow> jsstring option \<Rightarrow> jsstring" where
  "keyOf lc title artist = lc (trim (or_empty title)) @ js '' - '' @ lc (trim (or_empty artist))"

text \<open>
  \<open>String.prototype.replace\<close> with a regular expression that has no \<open>g\<close> flag and matches
  one fixed text: the leftmost occurrence is replaced, the rest is kept.
\<close>

fun replace_first :: "jsstring \<Rightarrow> jsstring \<Rightarrow> jsstring \<Rightarrow> jsstring" where
  "replace_first pat rep [] = (if pat = [] then rep else [])"
| "replace_first pat rep (c # cs) =
     (if prefix pat (c # cs) then rep @ drop (length pat) (c # cs)
      else c # replace_first pat rep cs)"

text \<open>\<open>String.prototype.includes\<close>: the text \<open>pat\<close> occurs somewhere in the string.\<close>

fun str_includes :: "jsstring \<Rightarrow> jsstring \<Rightarrow> bool" where
  "str_includes pat [] = (pat = [])"
| "str_includes pat (c # cs) = (prefix pat (c # cs) \<or> str_includes pat cs)"

definition toHiResArtwork :: "jsstring option \<Rightarrow> jsstring option" where
  "toHiResArtwork url100 =
     (if \<not> truthy url100 then None
      else Some (replace_first (js ''/100x100bb.'') (js ''/600x600bb.'') (or_empty url100)))"

definition buildPlaceholderPoster ::
  "jsstring option \<Rightarrow> jsstring option \<Rightarrow> js_error + jsstring" where
  "buildPlaceholderPoster title artist =
     (let t = trim (trim (or_empty title) @ js '' '' @ trim (or_empty artist));
          text = (if t = [] then js ''No Cover'' else t)
      in case encodeURIComponent (take 60 text) of
           Inl e \<Rightarrow> Inl e
         | Inr enc \<Rightarrow> Inr (js ''https://dummyimage.com/600x600/111/fff&text='' @ enc))"

text \<open>\<open>x || POSTER_PLACEHOLDER\<close>, where evaluating \<open>x\<close> may throw.\<close>

definition or_placeholder :: "js_error + jsstring \<Rightarrow> js_error + jsstring" where
  "or_placeholder r =
     (case r of Inl e \<Rightarrow> Inl e | Inr s \<Rightarrow> Inr (if s = [] then POSTER_PLACEHOLDER else s))"

definition first_artwork :: "song_result list \<Rightarrow> jsstring option" where
  "first_artwork results =
     (case find (\<lambda>x. truthy (artworkUrl100 x)) results of
        None \<Rightarrow> None
      | Some x \<Rightarrow> artworkUrl100 x)"

text \<open>
  The body of the \<open>try\<close> block of \<open>fetchItunesPoster\<close>: the value it is about to cache and
  return, or what it throws. The catalog is a function from the search term to the
  outcome of the request; \<open>Success None\<close> is a parsed body whose \<open>results\<close> is not an array.
\<close>

definition poster_try ::
  "(jsstring \<Rightarrow> song_result list option http_result) \<Rightarrow> jsstring \<Rightarrow>
   jsstring option \<Rightarrow> jsstring option \<Rightarrow> js_error + jsstring" where
  "poster_try catalog term title artist =
     (case catalog term of
        TransportFailure \<Rightarrow> Inl FetchFailed
      | Timeout \<Rightarrow> Inl Aborted
      | NonSuccessStatus \<Rightarrow> or_placeholder (buildPlaceholderPoster title artist)
      | MalformedBody \<Rightarrow> Inl SyntaxError
      | Success data \<Rightarrow>
          (let results = (case data of None \<Rightarrow> [] | Some rs \<Rightarrow> rs);
               posterUrl = toHiResArtwork (first_artwork results)
           in if truthy posterUrl then Inr (or_empty posterUrl)
              else or_placeholder (buildPlaceholderPoster title artist)))"

text \<open>
  \<open>fetchItunesPoster\<close> returns the URL (or the exception that leaves it) and the poster
  cache as it is afterwards. An exception thrown inside the \<open>catch\<close> block leaves the
  function, and nothing is stored.
\<close>

definition fetchItunesPoster ::
  "(jsstring \<Rightarrow> jsstring) \<Rightarrow> (jsstring \<Rightarrow> song_result list option http_result) \<Rightarrow>
   poster_cache \<Rightarrow> jsstring option \<Rightarrow> jsstring option \<Rightarrow>
   (js_error + jsstring) \<times> poster_cache" where
  "fetchItunesPoster lc catalog posterCache title artist =
     (let k = keyOf lc title artist in
      case posterCache k of
        Some v \<Rightarrow> (Inr v, posterCache)
      | None \<Rightarrow>
          (let term = trim (or_empty title @ js '' '' @ or_empty artist) in
           if term = [] then
             (case buildPlaceholderPoster title artist of
                Inl e \<Rightarrow> (Inl e, posterCache)
              | Inr ph \<Rightarrow> (Inr ph, posterCache(k \<mapsto> ph)))
           else
             (case poster_try catalog term title artist of
                Inr v \<Rightarrow> (Inr v, posterCache(k \<mapsto> v))
              | Inl _ \<Rightarrow>
                  (case or_placeholder (buildPlaceholderPoster title artist) of
                     Inl e \<Rightarrow> (Inl e, posterCache)
                   | Inr ph \<Rightarrow> (Inr ph, posterCache(k \<mapsto> ph))))))"

text \<open>
  A title of sixty-one code units: fifty-nine letters \<open>a\<close> and U+1F600, which is the
  surrogate pair D83D DE00. \<open>slice(0, 60)\<close> keeps the first half of the pair.
\<close>

definition long_title :: jsstring where
  "long_title =
     js ''aaaaaaaaaaaaaaaaaaaaaaaaaaaaaaaaaaaaaaaaaaaaaaaaaaaaaaaaaaa'' @ [0xD83D, 0xDE00]"

section \<open>Video resolver\<close>

subsection \<open>The resolve cache\<close>

record video_resolution =
  youtubeUrl :: "jsstring option"
  musicUrl :: "jsstring option"

record resolve_entry = video_resolution +
  expiresAt :: int

type_synonym resolve_cache = "jsstring \<rightharpoonup> resolve_entry"

definition RESOLVE_CACHE_TTL_MS :: int where
  "RESOLVE_CACHE_TTL_MS = 60 * 60 * 1000"

text \<open>
  Both cache operations read the clock (\<open>Date.now()\<close>, in milliseconds); the model takes
  the reading as the argument \<open>now\<close>. \<open>getFromResolveCache\<close> returns the cache as well,
  since a read at or past the expiry deletes the entry.
\<close>

definition getFromResolveCache ::
  "int \<Rightarrow> resolve_cache \<Rightarrow> jsstring \<Rightarrow> video_resolution option \<times> resolve_cache" where
  "getFromResolveCache now resolveCache key =
     (if key = [] then (None, resolveCache)
      else case resolveCache key of
        None \<Rightarrow> (None, resolveCache)
      | Some entry \<Rightarrow>
          if expiresAt entry \<le> now then (None, resolveCache(key := None))
          else (Some \<lparr>youtubeUrl = youtubeUrl entry, musicUrl = musicUrl entry\<rparr>,
                resolveCache))"

definition setResolveCache ::
  "int \<Rightarrow> resolve_cache \<Rightarrow> jsstring \<Rightarrow> jsstring option \<Rightarrow> jsstring option \<Rightarrow> resolve_cache" where
  "setResolveCache now resolveCache key yt mu =
     (if key = [] then resolveCache
      else resolveCache(key \<mapsto>
             \<lparr>youtubeUrl = yt, musicUrl = mu, expiresAt = now + RESOLVE_CACHE_TTL_MS\<rparr>))"

subsection \<open>Extraction of the video identifier\<close>

definition buildYoutubeSearchUrl :: "jsstring \<Rightarrow> jsstring \<Rightarrow> jsstring" where
  "buildYoutubeSearchUrl title artist =
     js ''https://www.youtube.com/results?'' @ js ''search_query='' @
     form_urlencode (trim (title @ js '' '' @ artist))"

text \<open>The marker is the eleven code units \<open>"videoId":"\<close>; \<open>0x22\<close> is the double quote.\<close>

definition videoId_marker :: jsstring where
  "videoId_marker = [0x22] @ js ''videoId'' @ [0x22, 0x3A, 0x22]"

definition is_id_char :: "16 word \<Rightarrow> bool" where
  "is_id_char u \<longleftrightarrow> is_alnum u \<or> u = 0x5F \<or> u = 0x2D"

text \<open>
  The regular expression matched at the start of a text: the marker, eleven code units of
  the class \<open>[a-zA-Z0-9_-]\<close>, and a closing double quote. The result is the captured
  group and the text after the match.
\<close>

definition videoId_match_here :: "jsstring \<Rightarrow> (jsstring \<times> jsstring) option" where
  "videoId_match_here s =
     (if prefix videoId_marker s then
        (let r = drop (length videoId_marker) s; tok = take 11 r
         in if length tok = 11 \<and> list_all is_id_char tok \<and> prefix [0x22] (drop 11 r)
            then Some (tok, drop 12 r) else None)
      else None)"

text \<open>\<open>re.exec\<close> from the current position: the leftmost match.\<close>

fun videoId_exec :: "jsstring \<Rightarrow> (jsstring \<times> jsstring) option" where
  "videoId_exec [] = None"
| "videoId_exec (c # cs) =
     (case videoId_match_here (c # cs) of
        Some m \<Rightarrow> Some m
      | None \<Rightarrow> videoId_exec cs)"

lemma videoId_match_here_shorter:
  "videoId_match_here s = Some (tok, rest) \<Longrightarrow> length rest < length s"
  by (auto simp: videoId_match_here_def videoId_marker_def js_def Let_def split: if_splits)

lemma videoId_exec_shorter:
  "videoId_exec s = Some (tok, rest) \<Longrightarrow> length rest < length s"
proof (induction s)
  case Nil
  then show ?case by simp
next
  case (Cons c cs)
  show ?case
  proof (cases "videoId_match_here (c # cs)")
    case None
    with Cons show ?thesis by simp
  next
    case (Some m)
    with Cons.prems have "videoId_match_here (c # cs) = Some (tok, rest)" by simp
    then show ?thesis by (rule videoId_match_here_shorter)
  qed
qed

text \<open>The \<open>while\<close> loop of \<open>extractFirstVideoId\<close>, over the text that is left to scan.\<close>

function videoId_loop :: "jsstring \<Rightarrow> jsstring option" where
  "videoId_loop s =
     (case videoId_exec s of
        None \<Rightarrow> None
      | Some (tok, rest) \<Rightarrow>
          if tok \<noteq> [] \<and> length tok = 11 then Some tok else videoId_loop rest)"
  by pat_completeness auto
termination
  by (relation "measure length") (auto dest: videoId_exec_shorter)

declare videoId_loop.simps [simp del]

definition extractFirstVideoId :: "jsstring option \<Rightarrow> jsstring option" where
  "extractFirstVideoId html =
     (if \<not> truthy html then None else videoId_loop (or_empty html))"

subsection \<open>The handler of POST /resolve/music-url\<close>

record resolve_request =
  youtubeSearchUrl :: "jsstring option"
  query :: "jsstring option"

datatype resolve_response = BadRequest | Json video_resolution

text \<open>
  \<open>fetchYoutubeSearchHtml\<close> is the function \<open>fetchHtml\<close> from the URL to the page text, or
  \<open>None\<close> on an error, a timeout or a non-success status. The handler reads the clock
  once in the cache lookup (\<open>t_get\<close>) and once more when it stores (\<open>t_set\<close>). The result
  is the response, the cache afterwards, and the URLs that were fetched. \<open>cacheKey_of\<close>
  and \<open>searchUrl_of\<close> are the handler's \<open>cacheKey\<close> and \<open>youtubeSearchUrl\<close>.
\<close>

definition cacheKey_of :: "resolve_request \<Rightarrow> jsstring" where
  "cacheKey_of req =
     (let youtubeSearchUrlInput = trim (or_empty (youtubeSearchUrl req));
          queryInput = trim (or_empty (query req))
      in if queryInput \<noteq> [] then queryInput else youtubeSearchUrlInput)"

definition searchUrl_of :: "resolve_request \<Rightarrow> jsstring" where
  "searchUrl_of req =
     (let youtubeSearchUrlInput = trim (or_empty (youtubeSearchUrl req));
          queryInput = trim (or_empty (query req))
      in if youtubeSearchUrlInput \<noteq> [] then youtubeSearchUrlInput
         else buildYoutubeSearchUrl queryInput [])"

definition resolve_music_url ::
  "(jsstring \<Rightarrow> jsstring option) \<Rightarrow> int \<Rightarrow> int \<Rightarrow> resolve_cache \<Rightarrow> resolve_request \<Rightarrow>
   resolve_response \<times> resolve_cache \<times> jsstring list" where
  "resolve_music_url fetchHtml t_get t_set resolveCache req =
     (let youtubeSearchUrlInput = trim (or_empty (youtubeSearchUrl req));
          queryInput = trim (or_empty (query req))
      in if youtubeSearchUrlInput = [] \<and> queryInput = [] then (BadRequest, resolveCache, [])
         else
           (let cacheKey = cacheKey_of req in
            case getFromResolveCache t_get resolveCache cacheKey of
              (Some cached, cache1) \<Rightarrow>
                (Json \<lparr>youtubeUrl = youtubeUrl cached, musicUrl = musicUrl cached\<rparr>, cache1, [])
            | (None, cache1) \<Rightarrow>
                (let url = searchUrl_of req;
                     html = fetchHtml url
                 in case extractFirstVideoId html of
                      None \<Rightarrow>
                        (Json \<lparr>youtubeUrl = None, musicUrl = None\<rparr>,
                         setResolveCache t_set cache1 cacheKey None None, [url])
                    | Some videoId \<Rightarrow>
                        (let yt = js ''https://www.youtube.com/watch?v='' @ videoId;
                             mu = js ''https://music.youtube.com/watch?v='' @ videoId
                         in (Json \<lparr>youtubeUrl = Some yt, musicUrl = Some mu\<rparr>,
                             setResolveCache t_set cache1 cacheKey (Some yt) (Some mu),
                             [url])))))"

section \<open>Podcast resolver\<close>

record podcast =
  collectionId :: "int option"
  title :: "jsstring option"
  author :: "jsstring option"
  artworkUrl :: "jsstring option"
  trackViewUrl :: "jsstring option"
  feedUrl :: "jsstring option"

definition PODCAST_DEFAULT_LIMIT :: nat where
  "PODCAST_DEFAULT_LIMIT = 20"

text \<open>
  \<open>fetchItunesPodcastsByTerm\<close>: an empty term, a failed request, a non-success status and
  an unparseable body all give the empty list; \<open>Success None\<close> is a body whose \<open>results\<close>
  is not an array. The catalog answers with entries already in the shape of the result
  objects the function builds.
\<close>

definition fetchItunesPodcastsByTerm ::
  "(jsstring \<Rightarrow> podcast list option http_result) \<Rightarrow> jsstring \<Rightarrow> podcast list" where
  "fetchItunesPodcastsByTerm catalog term =
     (let t = trim term in
      if t = [] then []
      else case catalog t of
             Success data \<Rightarrow> (case data of None \<Rightarrow> [] | Some results \<Rightarrow> results)
           | _ \<Rightarrow> [])"

text \<open>The first loop of the handler: one request per term, until 40 entries are held.\<close>

fun accumulate ::
  "(jsstring \<Rightarrow> podcast list) \<Rightarrow> podcast list \<Rightarrow> jsstring list \<Rightarrow> podcast list" where
  "accumulate fetchTerm all [] = all"
| "accumulate fetchTerm all (term # terms) =
     (let all' = all @ fetchTerm term in
      if length all' \<ge> PODCAST_DEFAULT_LIMIT * 2 then all'
      else accumulate fetchTerm all' terms)"

text \<open>
  The value of \<open>p.collectionId || `${p.title}-${p.author}`\<close>: the number when it is not
  \<open>null\<close> and not zero (zero is falsy), else the string. The \<open>Set\<close> compares numbers with
  numbers and strings with strings.
\<close>

datatype podcast_id = NumberId int | StringId jsstring

definition podcast_id_of :: "podcast \<Rightarrow> podcast_id" where
  "podcast_id_of p =
     (case collectionId p of
        Some n \<Rightarrow>
          if n \<noteq> 0 then NumberId n
          else StringId (template (title p) @ js ''-'' @ template (author p))
      | None \<Rightarrow> StringId (template (title p) @ js ''-'' @ template (author p)))"

definition id_falsy :: "podcast_id \<Rightarrow> bool" where
  "id_falsy i = (case i of NumberId n \<Rightarrow> n = 0 | StringId s \<Rightarrow> s = [])"

text \<open>The second loop of the handler, with the set \<open>seen\<close> and the list \<open>unique\<close> as state.\<close>

fun dedupe_loop :: "podcast_id set \<Rightarrow> podcast list \<Rightarrow> podcast list \<Rightarrow> podcast list" where
  "dedupe_loop seen unique [] = unique"
| "dedupe_loop seen unique (p # ps) =
     (let i = podcast_id_of p in
      if id_falsy i \<or> i \<in> seen then dedupe_loop seen unique ps
      else if \<not> truthy (title p) \<or> \<not> truthy (trackViewUrl p) then
        dedupe_loop (insert i seen) unique ps
      else if length (unique @ [p]) \<ge> PODCAST_DEFAULT_LIMIT then unique @ [p]
      else dedupe_loop (insert i seen) (unique @ [p]) ps)"

text \<open>Both loops, from the search terms to the list the handler caches and sends.\<close>

definition resolve_podcasts ::
  "(jsstring \<Rightarrow> podcast list option http_result) \<Rightarrow> jsstring list \<Rightarrow> podcast list" where
  "resolve_podcasts catalog terms =
     dedupe_loop {} [] (accumulate (fetchItunesPodcastsByTerm catalog) [] terms)"

text \<open>Catalog entries for concrete runs: a collection id, a title and a link.\<close>

definition example_podcast ::
  "int option \<Rightarrow> jsstring option \<Rightarrow> jsstring option \<Rightarrow> podcast" where
  "example_podcast cid t link =
     \<lparr>collectionId = cid, title = t, author = Some (js ''Host''), artworkUrl = None,
      trackViewUrl = link, feedUrl = None\<rparr>"

text \<open>Services for concrete runs, which answer every request alike.\<close>

definition catalog_timeout :: "jsstring \<Rightarrow> song_result list option http_result" where
  "catalog_timeout q = Timeout"

definition catalog_returning ::
  "podcast list \<Rightarrow> jsstring \<Rightarrow> podcast list option http_result" where
  "catalog_returning results q = Success (Some results)"

definition page_server :: "jsstring \<Rightarrow> jsstring \<Rightarrow> jsstring option" where
  "page_server page url = Some page"

section \<open>Properties of the artwork resolver\<close>

lemmas string_eval = js_def is_white_space_def trim_def or_empty_def truthy_def template_def

lemma fetchItunesPoster_cached:
  "fetchItunesPoster lc catalog c t a = (Inr v, c') \<Longrightarrow> c' (keyOf lc t a) = Some v"
  by (auto simp: fetchItunesPoster_def Let_def split: option.splits sum.splits if_splits)

lemma fetchItunesPoster_hit:
  "c (keyOf lc t a) = Some v \<Longrightarrow> fetchItunesPoster lc catalog c t a = (Inr v, c)"
  by (simp add: fetchItunesPoster_def)

text \<open>
  Claim C8. The key is the lower-cased trimmed title, \<open>" - "\<close>, and the lower-cased
  trimmed artist, with an absent input read as the empty string. Two title/artist pairs
  that agree after trimming and lower-casing get the same key, and once one of them has
  been resolved the other is answered from the same cache entry, whatever the catalog
  would say. For any case mapping that lower-cases ASCII strings the way
  \<open>toLowerCase\<close> does, \<open>("Imagine", "John Lennon")\<close> and
  \<open>("  imagine ", "JOHN LENNON")\<close> have the same key.
\<close>

theorem keyOf_equivalence:
  "keyOf lc t a = lc (trim (or_empty t)) @ js '' - '' @ lc (trim (or_empty a))
   \<and> (lc (trim (or_empty t)) = lc (trim (or_empty t')) \<longrightarrow>
      lc (trim (or_empty a)) = lc (trim (or_empty a')) \<longrightarrow>
        keyOf lc t a = keyOf lc t' a'
        \<and> (\<forall>catalog catalog' c c' v.
              fetchItunesPoster lc catalog c t a = (Inr v, c') \<longrightarrow>
              fetchItunesPoster lc catalog' c' t' a' = (Inr v, c')))
   \<and> ((\<forall>s. list_all is_ascii s \<longrightarrow> lc s = toLowerCase_ascii s) \<longrightarrow>
        keyOf lc (Some (js ''Imagine'')) (Some (js ''John Lennon''))
        = keyOf lc (Some (js ''  imagine '')) (Some (js ''JOHN LENNON'')))"
proof (intro conjI impI allI)
  show "keyOf lc t a = lc (trim (or_empty t)) @ js '' - '' @ lc (trim (or_empty a))"
    by (simp add: keyOf_def)
next
  assume "lc (trim (or_empty t)) = lc (trim (or_empty t'))"
    and "lc (trim (or_empty a)) = lc (trim (or_empty a'))"
  then show "keyOf lc t a = keyOf lc t' a'"
    by (simp add: keyOf_def)
next
  fix catalog catalog' c c' v
  assume "lc (trim (or_empty t)) = lc (trim (or_empty t'))"
    and "lc (trim (or_empty a)) = lc (trim (or_empty a'))"
  then have k: "keyOf lc t' a' = keyOf lc t a"
    by (simp add: keyOf_def)
  assume "fetchItunesPoster lc catalog c t a = (Inr v, c')"
  then have "c' (keyOf lc t a) = Some v"
    by (rule fetchItunesPoster_cached)
  with k have "c' (keyOf lc t' a') = Some v" by simp
  then show "fetchItunesPoster lc catalog' c' t' a' = (Inr v, c')"
    by (rule fetchItunesPoster_hit)
next
  assume ascii: "\<forall>s. list_all is_ascii s \<longrightarrow> lc s = toLowerCase_ascii s"
  have t1: "trim (js ''Imagine'') = js ''Imagine''" "trim (js ''  imagine '') = js ''imagine''"
    "trim (js ''John Lennon'') = js ''John Lennon''" "trim (js ''JOHN LENNON'') = js ''JOHN LENNON''"
    by (simp_all add: string_eval)
  have a1: "list_all is_ascii (js ''Imagine'')" "list_all is_ascii (js ''imagine'')"
    "list_all is_ascii (js ''John Lennon'')" "list_all is_ascii (js ''JOHN LENNON'')"
    by (simp_all add: js_def is_ascii_def)
  have l1: "toLowerCase_ascii (js ''Imagine'') = toLowerCase_ascii (js ''imagine'')"
    "toLowerCase_ascii (js ''John Lennon'') = toLowerCase_ascii (js ''JOHN LENNON'')"
    by (simp_all add: js_def toLowerCase_ascii_def)
  from ascii a1 l1 have "lc (js ''Imagine'') = lc (js ''imagine'')"
    "lc (js ''John Lennon'') = lc (js ''JOHN LENNON'')"
    by simp_all
  with t1 show "keyOf lc (Some (js ''Imagine'')) (Some (js ''John Lennon''))
        = keyOf lc (Some (js ''  imagine '')) (Some (js ''JOHN LENNON''))"
    by (simp add: keyOf_def or_empty_def)
qed

theorem keyOf_equivalence_witness:
  "keyOf toLowerCase_ascii (Some (js ''Imagine'')) (Some (js ''John Lennon''))
     = keyOf toLowerCase_ascii (Some (js ''  imagine '')) (Some (js ''JOHN LENNON''))
   \<and> keyOf toLowerCase_ascii (Some (js ''  imagine '')) (Some (js ''JOHN LENNON''))
     = js ''imagine - john lennon''
   \<and> fetchItunesPoster toLowerCase_ascii (\<lambda>_. Timeout)
        [js ''imagine - john lennon'' \<mapsto> js ''https://example.org/600x600bb.jpg'']
        (Some (js ''  imagine '')) (Some (js ''JOHN LENNON''))
     = (Inr (js ''https://example.org/600x600bb.jpg''),
        [js ''imagine - john lennon'' \<mapsto> js ''https://example.org/600x600bb.jpg''])"
proof -
  have k: "keyOf toLowerCase_ascii (Some (js ''  imagine '')) (Some (js ''JOHN LENNON''))
     = js ''imagine - john lennon''"
    by (simp add: keyOf_def string_eval toLowerCase_ascii_def)
  have h: "\<forall>s. list_all is_ascii s \<longrightarrow> toLowerCase_ascii s = toLowerCase_ascii s"
    by simp
  from keyOf_equivalence [of toLowerCase_ascii] h
  have e: "keyOf toLowerCase_ascii (Some (js ''Imagine'')) (Some (js ''John Lennon''))
     = keyOf toLowerCase_ascii (Some (js ''  imagine '')) (Some (js ''JOHN LENNON''))"
    by blast
  have f: "fetchItunesPoster toLowerCase_ascii (\<lambda>_. Timeout)
        [js ''imagine - john lennon'' \<mapsto> js ''https://example.org/600x600bb.jpg'']
        (Some (js ''  imagine '')) (Some (js ''JOHN LENNON''))
     = (Inr (js ''https://example.org/600x600bb.jpg''),
        [js ''imagine - john lennon'' \<mapsto> js ''https://example.org/600x600bb.jpg''])"
    by (rule fetchItunesPoster_hit) (simp add: k)
  from e k f show ?thesis by simp
qed

lemma replace_first_leftmost:
  "s = pre @ pat @ post \<Longrightarrow>
     \<exists>pre' post'. s = pre' @ pat @ post'
       \<and> (\<forall>i<length pre'. \<not> prefix pat (drop i s))
       \<and> replace_first pat rep s = pre' @ rep @ post'"
proof (induction s arbitrary: pre)
  case Nil
  then show ?case by simp
next
  case (Cons c cs)
  show ?case
  proof (cases "prefix pat (c # cs)")
    case True
    then obtain post' where "c # cs = pat @ post'"
      by (auto simp: prefix_def)
    then have "drop (length pat) (c # cs) = post'"
      by simp
    moreover from True have
      "replace_first pat rep (c # cs) = rep @ drop (length pat) (c # cs)"
      by simp
    ultimately have "c # cs = [] @ pat @ post'
       \<and> (\<forall>i<length ([]::jsstring). \<not> prefix pat (drop i (c # cs)))
       \<and> replace_first pat rep (c # cs) = [] @ rep @ post'"
      using \<open>c # cs = pat @ post'\<close> by simp
    then show ?thesis by blast
  next
    case False
    with Cons.prems obtain pre0 where pre: "pre = c # pre0"
      by (cases pre) auto
    with Cons.prems have "cs = pre0 @ pat @ post" by simp
    from Cons.IH [OF this] obtain pre' post' where
      split: "cs = pre' @ pat @ post'"
      and first: "\<forall>i<length pre'. \<not> prefix pat (drop i cs)"
      and repl: "replace_first pat rep cs = pre' @ rep @ post'"
      by blast
    have "\<not> prefix pat (drop i (c # cs))" if "i < length (c # pre')" for i
      using that False first by (cases i) auto
    with split repl False have "c # cs = (c # pre') @ pat @ post'
       \<and> (\<forall>i<length (c # pre'). \<not> prefix pat (drop i (c # cs)))
       \<and> replace_first pat rep (c # cs) = (c # pre') @ rep @ post'"
      by simp
    then show ?thesis by blast
  qed
qed

lemma buildPlaceholderPoster_nonempty:
  "buildPlaceholderPoster t a = Inr ph \<Longrightarrow> ph \<noteq> []"
  by (auto simp: buildPlaceholderPoster_def Let_def js_def split: sum.splits)

lemma or_placeholder_build:
  "or_placeholder (buildPlaceholderPoster t a) = buildPlaceholderPoster t a"
proof (cases "buildPlaceholderPoster t a")
  case (Inl e)
  then show ?thesis by (simp add: or_placeholder_def)
next
  case (Inr ph)
  with buildPlaceholderPoster_nonempty [OF Inr] show ?thesis
    by (simp add: or_placeholder_def)
qed

text \<open>
  Claim C9. When the candidate that \<open>find\<close> selects has an artwork URL that contains
  \<open>/100x100bb.\<close>, the URL splits at the leftmost occurrence of that token, and the
  high-resolution URL, which the resolver returns and caches on a cache miss with a
  non-empty search term and a successful catalog response, is the same text with
  \<open>/600x600bb.\<close> in place of that occurrence.
\<close>

theorem hi_res_rewrite:
  assumes "url = pre @ js ''/100x100bb.'' @ post"
    and "find (\<lambda>x. truthy (artworkUrl100 x)) results = Some cand"
    and "artworkUrl100 cand = Some url"
    and "posterCache (keyOf lc ti ar) = None"
    and "trim (or_empty ti @ js '' '' @ or_empty ar) \<noteq> []"
    and "catalog (trim (or_empty ti @ js '' '' @ or_empty ar)) = Success (Some results)"
  shows "\<exists>pre' post'. url = pre' @ js ''/100x100bb.'' @ post'
           \<and> (\<forall>i<length pre'. \<not> prefix (js ''/100x100bb.'') (drop i url))
           \<and> toHiResArtwork (artworkUrl100 cand) = Some (pre' @ js ''/600x600bb.'' @ post')
           \<and> fetchItunesPoster lc catalog posterCache ti ar
             = (Inr (pre' @ js ''/600x600bb.'' @ post'),
                posterCache(keyOf lc ti ar \<mapsto> pre' @ js ''/600x600bb.'' @ post'))"
proof -
  from replace_first_leftmost [OF assms(1), of "js ''/600x600bb.''"]
  obtain pre' post' where
    split: "url = pre' @ js ''/100x100bb.'' @ post'"
    and first: "\<forall>i<length pre'. \<not> prefix (js ''/100x100bb.'') (drop i url)"
    and repl: "replace_first (js ''/100x100bb.'') (js ''/600x600bb.'') url
               = pre' @ js ''/600x600bb.'' @ post'"
    by blast
  from assms(1) have ne: "url \<noteq> []" by (simp add: js_def)
  have fa: "first_artwork results = Some url"
    using assms(2,3) by (simp add: first_artwork_def)
  have hi: "toHiResArtwork (Some url) = Some (pre' @ js ''/600x600bb.'' @ post')"
    using ne repl by (simp add: toHiResArtwork_def truthy_def or_empty_def)
  have "pre' @ js ''/600x600bb.'' @ post' \<noteq> []" by (simp add: js_def)
  with fa hi assms(6) have
    "poster_try catalog (trim (or_empty ti @ js '' '' @ or_empty ar)) ti ar
     = Inr (pre' @ js ''/600x600bb.'' @ post')"
    by (simp add: poster_try_def truthy_def or_empty_def)
  with assms(4,5) have res: "fetchItunesPoster lc catalog posterCache ti ar
             = (Inr (pre' @ js ''/600x600bb.'' @ post'),
                posterCache(keyOf lc ti ar \<mapsto> pre' @ js ''/600x600bb.'' @ post'))"
    by (simp add: fetchItunesPoster_def Let_def)
  from hi assms(3) have hi': "toHiResArtwork (artworkUrl100 cand)
                 = Some (pre' @ js ''/600x600bb.'' @ post')"
    by simp
  from split first hi' res show ?thesis by blast
qed


theorem hi_res_rewrite_witness:
  "toHiResArtwork (Some (js ''https://is1.mzstatic.com/image/a/100x100bb.jpg''))
     = Some (js ''https://is1.mzstatic.com/image/a/600x600bb.jpg'')
   \<and> fetchItunesPoster toLowerCase_ascii
       (\<lambda>_. Success (Some [\<lparr>artworkUrl100 = None\<rparr>,
          \<lparr>artworkUrl100 = Some (js ''https://is1.mzstatic.com/image/a/100x100bb.jpg'')\<rparr>]))
       Map.empty (Some (js ''Imagine'')) (Some (js ''John Lennon''))
     = (Inr (js ''https://is1.mzstatic.com/image/a/600x600bb.jpg''),
        [js ''imagine - john lennon'' \<mapsto> js ''https://is1.mzstatic.com/image/a/600x600bb.jpg''])"
proof -
  let ?url = "js ''https://is1.mzstatic.com/image/a/100x100bb.jpg''"
  let ?cand = "\<lparr>artworkUrl100 = Some ?url\<rparr>"
  let ?results = "[\<lparr>artworkUrl100 = None\<rparr>, ?cand]"
  let ?catalog = "\<lambda>_::jsstring. Success (Some ?results)"
  let ?ti = "Some (js ''Imagine'')" and ?ar = "Some (js ''John Lennon'')"
  have key: "keyOf toLowerCase_ascii ?ti ?ar = js ''imagine - john lennon''"
    by (simp add: keyOf_def string_eval toLowerCase_ascii_def)
  have p1: "?url = js ''https://is1.mzstatic.com/image/a'' @ js ''/100x100bb.'' @ js ''jpg''"
    by (simp add: js_def)
  have p2: "find (\<lambda>x. truthy (artworkUrl100 x)) ?results = Some ?cand"
    by (simp add: truthy_def js_def)
  have p3: "artworkUrl100 ?cand = Some ?url" by simp
  have p4: "Map.empty (keyOf toLowerCase_ascii ?ti ?ar) = None" by simp
  have p5: "trim (or_empty ?ti @ js '' '' @ or_empty ?ar) \<noteq> []"
    by (simp add: string_eval)
  have p6: "?catalog (trim (or_empty ?ti @ js '' '' @ or_empty ?ar)) = Success (Some ?results)"
    by simp
  from hi_res_rewrite [where lc = toLowerCase_ascii and catalog = ?catalog
      and posterCache = Map.empty, OF p1 p2 p3 p4 p5 p6]
  obtain pre' post' where
    hi: "toHiResArtwork (artworkUrl100 ?cand) = Some (pre' @ js ''/600x600bb.'' @ post')"
    and res: "fetchItunesPoster toLowerCase_ascii ?catalog Map.empty ?ti ?ar
             = (Inr (pre' @ js ''/600x600bb.'' @ post'),
                [keyOf toLowerCase_ascii ?ti ?ar \<mapsto> pre' @ js ''/600x600bb.'' @ post'])"
    by blast
  have ev: "toHiResArtwork (Some ?url) = Some (js ''https://is1.mzstatic.com/image/a/600x600bb.jpg'')"
    by (simp add: toHiResArtwork_def string_eval)
  with hi have "pre' @ js ''/600x600bb.'' @ post' = js ''https://is1.mzstatic.com/image/a/600x600bb.jpg''"
    by simp
  with res key ev show ?thesis by simp
qed


lemmas encode_eval = is_lead_def is_trail_def surrogate_pair_def utf8_def hex_digit_def
  percent_byte_def percent_utf8_def is_alnum_def uri_unescaped_def

lemma poster_try_failure:
  assumes "catalog q \<in> {TransportFailure, Timeout, NonSuccessStatus, MalformedBody}"
  shows "poster_try catalog q t a = buildPlaceholderPoster t a
         \<or> (\<exists>e. poster_try catalog q t a = Inl e)"
  using assms by (auto simp: poster_try_def or_placeholder_build)

text \<open>
  When building the placeholder does not throw, a failed search ends in the fallback: the
  placeholder is returned and stored under the key.
\<close>

lemma fetchItunesPoster_failure_fallback:
  assumes "posterCache (keyOf lc t a) = None"
    and "trim (or_empty t @ js '' '' @ or_empty a) \<noteq> []"
    and "catalog (trim (or_empty t @ js '' '' @ or_empty a))
         \<in> {TransportFailure, Timeout, NonSuccessStatus, MalformedBody}"
    and "buildPlaceholderPoster t a = Inr ph"
  shows "fetchItunesPoster lc catalog posterCache t a = (Inr ph, posterCache(keyOf lc t a \<mapsto> ph))"
proof -
  from poster_try_failure [where catalog = catalog
      and q = "trim (or_empty t @ js '' '' @ or_empty a)" and t = t and a = a, OF assms(3)]
    assms(4)
  have "poster_try catalog (trim (or_empty t @ js '' '' @ or_empty a)) t a = Inr ph
        \<or> (\<exists>e. poster_try catalog (trim (or_empty t @ js '' '' @ or_empty a)) t a = Inl e)"
    by simp
  moreover have "or_placeholder (Inr ph) = Inr ph"
    using or_placeholder_build [of t a] assms(4) by simp
  ultimately show ?thesis
    using assms(1,2,4) by (auto simp: fetchItunesPoster_def Let_def)
qed

lemma long_title_placeholder:
  "buildPlaceholderPoster (Some long_title) None = Inl URIError"
  by (simp add: buildPlaceholderPoster_def long_title_def string_eval encode_eval)

lemma long_title_term: "trim (or_empty (Some long_title) @ js '' '' @ or_empty None) \<noteq> []"
  by (simp add: long_title_def string_eval)

text \<open>
  Claim C1 says that \<open>fetchItunesPoster\<close> never raises when the catalog search fails,
  and returns and caches the placeholder. The code breaks it for the title \<open>long_title\<close>,
  under every case mapping \<open>lc\<close>: whatever way the search fails, the \<open>catch\<close> block (or the non-success branch, and
  then the \<open>catch\<close> block) calls \<open>buildPlaceholderPoster\<close>, \<open>encodeURIComponent\<close> throws
  \<open>URIError\<close> on the unpaired surrogate, the exception leaves \<open>fetchItunesPoster\<close>, and
  the poster cache stays empty.
\<close>

theorem fetchItunesPoster_raises:
  "fetchItunesPoster lc (\<lambda>_. TransportFailure) Map.empty (Some long_title) None
     = (Inl URIError, Map.empty)
   \<and> fetchItunesPoster lc (\<lambda>_. Timeout) Map.empty (Some long_title) None
     = (Inl URIError, Map.empty)
   \<and> fetchItunesPoster lc (\<lambda>_. NonSuccessStatus) Map.empty (Some long_title) None
     = (Inl URIError, Map.empty)
   \<and> fetchItunesPoster lc (\<lambda>_. MalformedBody) Map.empty (Some long_title) None
     = (Inl URIError, Map.empty)"
  using long_title_term
  by (simp add: fetchItunesPoster_def poster_try_def or_placeholder_def long_title_placeholder)

text \<open>
  Claim C2, as the code has it. With title \<open>""\<close> and artist \<open>""\<close> the resolver returns a
  URL, and that URL is in the poster cache under the normalized key afterwards. When the
  key was not cached before, the URL is the placeholder for the text \<open>No Cover\<close> as
  \<open>encodeURIComponent\<close> writes it, with \<open>%20\<close> for the space.
\<close>

theorem empty_query_placeholder:
  "\<exists>v posterCache'.
     fetchItunesPoster lc catalog posterCache (Some []) (Some []) = (Inr v, posterCache')
     \<and> posterCache' (keyOf lc (Some []) (Some [])) = Some v
     \<and> (posterCache (keyOf lc (Some []) (Some [])) = None \<longrightarrow>
          v = js ''https://dummyimage.com/600x600/111/fff&text=No%20Cover''
          \<and> posterCache' = posterCache(keyOf lc (Some []) (Some []) \<mapsto> v))"
proof (cases "posterCache (keyOf lc (Some []) (Some []))")
  case None
  have "buildPlaceholderPoster (Some []) (Some [])
        = Inr (js ''https://dummyimage.com/600x600/111/fff&text=No%20Cover'')"
    by (simp add: buildPlaceholderPoster_def string_eval encode_eval)
  moreover have "trim (or_empty (Some []) @ js '' '' @ or_empty (Some [])) = []"
    by (simp add: string_eval)
  ultimately have "fetchItunesPoster lc catalog posterCache (Some []) (Some [])
    = (Inr (js ''https://dummyimage.com/600x600/111/fff&text=No%20Cover''),
       posterCache(keyOf lc (Some []) (Some []) \<mapsto>
         js ''https://dummyimage.com/600x600/111/fff&text=No%20Cover''))"
    using None by (simp add: fetchItunesPoster_def Let_def)
  then show ?thesis by simp
next
  case (Some v)
  then have "fetchItunesPoster lc catalog posterCache (Some []) (Some []) = (Inr v, posterCache)"
    by (simp add: fetchItunesPoster_def)
  with Some show ?thesis by simp
qed

theorem empty_query_placeholder_witness:
  "fetchItunesPoster toLowerCase_ascii (\<lambda>_. Timeout) Map.empty (Some []) (Some [])
   = (Inr (js ''https://dummyimage.com/600x600/111/fff&text=No%20Cover''),
      [js '' - '' \<mapsto> js ''https://dummyimage.com/600x600/111/fff&text=No%20Cover''])"
proof -
  have key: "keyOf toLowerCase_ascii (Some []) (Some []) = js '' - ''"
    by (simp add: keyOf_def string_eval toLowerCase_ascii_def)
  from empty_query_placeholder [of toLowerCase_ascii "\<lambda>_. Timeout" Map.empty]
  obtain v c' where
    "fetchItunesPoster toLowerCase_ascii (\<lambda>_. Timeout) Map.empty (Some []) (Some []) = (Inr v, c')"
    and "Map.empty (keyOf toLowerCase_ascii (Some []) (Some [])) = None \<longrightarrow>
          v = js ''https://dummyimage.com/600x600/111/fff&text=No%20Cover''
          \<and> c' = [keyOf toLowerCase_ascii (Some []) (Some []) \<mapsto> v]"
    by blast
  then show ?thesis by (simp add: key)
qed

text \<open>
  The claim as it was stated asks for a URL that contains \<open>No+Cover\<close> or is the constant
  \<open>POSTER_PLACEHOLDER\<close>. The URL returned and cached for \<open>("", "")\<close> is neither.
\<close>

theorem empty_query_counterexample:
  "fetchItunesPoster toLowerCase_ascii catalog_timeout Map.empty (Some []) (Some [])
   = (Inr (js ''https://dummyimage.com/600x600/111/fff&text=No%20Cover''),
      [js '' - '' \<mapsto> js ''https://dummyimage.com/600x600/111/fff&text=No%20Cover''])
   \<and> \<not> str_includes (js ''No+Cover'')
         (js ''https://dummyimage.com/600x600/111/fff&text=No%20Cover'')
   \<and> js ''https://dummyimage.com/600x600/111/fff&text=No%20Cover'' \<noteq> POSTER_PLACEHOLDER"
proof -
  have "fetchItunesPoster toLowerCase_ascii catalog_timeout Map.empty (Some []) (Some [])
   = (Inr (js ''https://dummyimage.com/600x600/111/fff&text=No%20Cover''),
      [js '' - '' \<mapsto> js ''https://dummyimage.com/600x600/111/fff&text=No%20Cover''])"
    by (simp add: fetchItunesPoster_def keyOf_def buildPlaceholderPoster_def string_eval
        encode_eval toLowerCase_ascii_def)
  moreover have "\<not> str_includes (js ''No+Cover'')
         (js ''https://dummyimage.com/600x600/111/fff&text=No%20Cover'')"
    by (simp add: js_def)
  moreover have "js ''https://dummyimage.com/600x600/111/fff&text=No%20Cover'' \<noteq> POSTER_PLACEHOLDER"
    by (simp add: js_def POSTER_PLACEHOLDER_def)
  ultimately show ?thesis by blast
qed

section \<open>Properties of the video resolver\<close>

lemma setResolveCache_no_empty_key:
  "resolveCache [] = None \<Longrightarrow> setResolveCache now resolveCache key yt mu [] = None"
  by (simp add: setResolveCache_def)

lemma getFromResolveCache_no_empty_key:
  "resolveCache [] = None \<Longrightarrow> snd (getFromResolveCache now resolveCache key) [] = None"
  by (simp add: getFromResolveCache_def split: option.splits)

lemma resolve_music_url_no_empty_key:
  assumes "resolveCache [] = None"
  shows "fst (snd (resolve_music_url fetchHtml t_get t_set resolveCache req)) [] = None"
proof -
  have "snd (getFromResolveCache t_get resolveCache (cacheKey_of req)) [] = None"
    using assms by (rule getFromResolveCache_no_empty_key)
  then show ?thesis
    using assms
    by (auto simp: resolve_music_url_def Let_def setResolveCache_def
        split: prod.splits option.splits)
qed

lemma cacheKey_nonempty_valid:
  "cacheKey_of req \<noteq> [] \<Longrightarrow>
     \<not> (trim (or_empty (youtubeSearchUrl req)) = [] \<and> trim (or_empty (query req)) = [])"
  by (auto simp: cacheKey_of_def Let_def split: if_splits)

lemma resolve_music_url_hit:
  assumes "cacheKey_of req \<noteq> []"
    and "getFromResolveCache t_get resolveCache (cacheKey_of req) = (Some cached, cache1)"
  shows "resolve_music_url fetchHtml t_get t_set resolveCache req
         = (Json \<lparr>youtubeUrl = youtubeUrl cached, musicUrl = musicUrl cached\<rparr>, cache1, [])"
  using cacheKey_nonempty_valid [OF assms(1)] assms(2)
  by (auto simp: resolve_music_url_def Let_def)

lemma resolve_music_url_miss:
  assumes "cacheKey_of req \<noteq> []"
    and "getFromResolveCache t_get resolveCache (cacheKey_of req) = (None, cache1)"
  shows "resolve_music_url fetchHtml t_get t_set resolveCache req
         = (case extractFirstVideoId (fetchHtml (searchUrl_of req)) of
              None \<Rightarrow>
                (Json \<lparr>youtubeUrl = None, musicUrl = None\<rparr>,
                 setResolveCache t_set cache1 (cacheKey_of req) None None, [searchUrl_of req])
            | Some videoId \<Rightarrow>
                (Json \<lparr>youtubeUrl = Some (js ''https://www.youtube.com/watch?v='' @ videoId),
                       musicUrl = Some (js ''https://music.youtube.com/watch?v='' @ videoId)\<rparr>,
                 setResolveCache t_set cache1 (cacheKey_of req)
                   (Some (js ''https://www.youtube.com/watch?v='' @ videoId))
                   (Some (js ''https://music.youtube.com/watch?v='' @ videoId)),
                 [searchUrl_of req]))"
  using cacheKey_nonempty_valid [OF assms(1)] assms(2)
  by (auto simp: resolve_music_url_def Let_def split: option.splits)

text \<open>
  Claim C5. The resolve cache is written by \<open>setResolveCache\<close> only, which never stores
  under the empty key (\<open>setResolveCache_no_empty_key\<close>, \<open>resolve_music_url_no_empty_key\<close>).
  For an entry of such a cache: a read at or past its expiry returns a miss and deletes
  the entry, and a resolution of that key at such a time fetches the search page again; a
  read strictly before the expiry returns the stored pair and leaves the cache as it
  is. Storing under a key replaces what the key held and touches no other key, so a key
  never has two entries.
\<close>

theorem resolve_cache_expiry:
  assumes "resolveCache [] = None"
    and "resolveCache key = Some entry"
  shows "(expiresAt entry \<le> now \<longrightarrow>
            getFromResolveCache now resolveCache key = (None, resolveCache(key := None))
            \<and> (\<forall>req fetchHtml t_set. cacheKey_of req = key \<longrightarrow>
                  snd (snd (resolve_music_url fetchHtml now t_set resolveCache req))
                  = [searchUrl_of req]))
       \<and> (now < expiresAt entry \<longrightarrow>
            getFromResolveCache now resolveCache key
            = (Some \<lparr>youtubeUrl = youtubeUrl entry, musicUrl = musicUrl entry\<rparr>, resolveCache))
       \<and> setResolveCache now resolveCache key yt mu key
            = Some \<lparr>youtubeUrl = yt, musicUrl = mu, expiresAt = now + 3600000\<rparr>
       \<and> (\<forall>k. k \<noteq> key \<longrightarrow> setResolveCache now resolveCache key yt mu k = resolveCache k)"
proof -
  from assms have ne: "key \<noteq> []" by auto
  have stale: "getFromResolveCache now resolveCache key = (None, resolveCache(key := None))"
    if "expiresAt entry \<le> now"
    using that ne assms(2) by (simp add: getFromResolveCache_def)
  have again: "snd (snd (resolve_music_url fetchHtml now t_set resolveCache req))
                  = [searchUrl_of req]"
    if "expiresAt entry \<le> now" and "cacheKey_of req = key" for req fetchHtml t_set
  proof -
    from that ne have k: "cacheKey_of req \<noteq> []" by simp
    from stale that have
      "getFromResolveCache now resolveCache (cacheKey_of req) = (None, resolveCache(key := None))"
      by simp
    from resolve_music_url_miss [OF k this] show ?thesis
      by (simp split: option.splits)
  qed
  have fresh: "getFromResolveCache now resolveCache key
            = (Some \<lparr>youtubeUrl = youtubeUrl entry, musicUrl = musicUrl entry\<rparr>, resolveCache)"
    if "now < expiresAt entry"
    using that ne assms(2) by (simp add: getFromResolveCache_def)
  have store: "setResolveCache now resolveCache key yt mu key
            = Some \<lparr>youtubeUrl = yt, musicUrl = mu, expiresAt = now + 3600000\<rparr>"
    using ne by (simp add: setResolveCache_def RESOLVE_CACHE_TTL_MS_def)
  have other: "setResolveCache now resolveCache key yt mu k = resolveCache k" if "k \<noteq> key" for k
    using that by (simp add: setResolveCache_def)
  from stale again fresh store other show ?thesis by blast
qed


theorem resolve_cache_expiry_witness:
  "getFromResolveCache 1000
     [js ''lofi'' \<mapsto> \<lparr>youtubeUrl = None, musicUrl = None, expiresAt = 1000\<rparr>] (js ''lofi'')
   = (None, Map.empty)
   \<and> getFromResolveCache 999
     [js ''lofi'' \<mapsto> \<lparr>youtubeUrl = None, musicUrl = None, expiresAt = 1000\<rparr>] (js ''lofi'')
   = (Some \<lparr>youtubeUrl = None, musicUrl = None\<rparr>,
      [js ''lofi'' \<mapsto> \<lparr>youtubeUrl = None, musicUrl = None, expiresAt = 1000\<rparr>])
   \<and> setResolveCache 5
     [js ''lofi'' \<mapsto> \<lparr>youtubeUrl = None, musicUrl = None, expiresAt = 1000\<rparr>] (js ''lofi'')
     (Some (js ''y'')) (Some (js ''m'')) (js ''lofi'')
   = Some \<lparr>youtubeUrl = Some (js ''y''), musicUrl = Some (js ''m''), expiresAt = 3600005\<rparr>"
proof -
  let ?e = "\<lparr>youtubeUrl = None, musicUrl = None, expiresAt = 1000\<rparr>"
  let ?c = "[js ''lofi'' \<mapsto> ?e]"
  have inv: "?c [] = None" by (simp add: js_def)
  have ent: "?c (js ''lofi'') = Some ?e" by simp
  have le: "expiresAt ?e \<le> 1000" and lt: "999 < expiresAt ?e" by simp_all
  from resolve_cache_expiry [OF inv ent, of 1000] le
  have "getFromResolveCache 1000 ?c (js ''lofi'') = (None, ?c(js ''lofi'' := None))"
    by blast
  then have a: "getFromResolveCache 1000 ?c (js ''lofi'') = (None, Map.empty)"
    by simp
  from resolve_cache_expiry [OF inv ent, of 999] lt
  have b: "getFromResolveCache 999 ?c (js ''lofi'')
           = (Some \<lparr>youtubeUrl = youtubeUrl ?e, musicUrl = musicUrl ?e\<rparr>, ?c)"
    by blast
  from resolve_cache_expiry [OF inv ent, of 5 "Some (js ''y'')" "Some (js ''m'')"]
  have "setResolveCache 5 ?c (js ''lofi'') (Some (js ''y'')) (Some (js ''m'')) (js ''lofi'')
     = Some \<lparr>youtubeUrl = Some (js ''y''), musicUrl = Some (js ''m''),
             expiresAt = 5 + 3600000\<rparr>"
    by blast
  then have c: "setResolveCache 5 ?c (js ''lofi'') (Some (js ''y'')) (Some (js ''m'')) (js ''lofi'')
     = Some \<lparr>youtubeUrl = Some (js ''y''), musicUrl = Some (js ''m''), expiresAt = 3600005\<rparr>"
    by simp
  from a b c show ?thesis by simp
qed

lemma videoId_exec_no_match:
  "(\<forall>i. videoId_match_here (drop i s) = None) \<Longrightarrow> videoId_exec s = None"
proof (induction s)
  case Nil
  then show ?case by simp
next
  case (Cons c cs)
  from Cons.prems have here: "videoId_match_here (c # cs) = None"
    by (metis drop0)
  have "videoId_match_here (drop i cs) = None" for i
    using Cons.prems [rule_format, of "Suc i"] by simp
  then have "videoId_exec cs = None" using Cons.IH by simp
  with here show ?case by simp
qed

lemma extractFirstVideoId_no_match:
  "(\<forall>i. videoId_match_here (drop i page) = None) \<Longrightarrow> extractFirstVideoId (Some page) = None"
  by (simp add: extractFirstVideoId_def videoId_loop.simps videoId_exec_no_match or_empty_def)

lemma extractFirstVideoId_failed: "extractFirstVideoId None = None"
  by (simp add: extractFirstVideoId_def truthy_def)

text \<open>
  Claim C4. For a request that is not rejected and misses the cache: when the fetch of the
  search page fails, or the page has no match of the identifier pattern at any position,
  the handler answers \<open>{youtubeUrl: null, musicUrl: null}\<close>, has fetched the search URL
  once, and leaves the pair in the cache under the cache key with expiry one hour
  (3600000 ms) after the clock reading of the store. Any later request with that cache
  key whose lookup happens before the expiry is answered with the same pair, fetches
  nothing and leaves the cache unchanged, whatever the network would return.
\<close>

theorem negative_result_cached:
  assumes "cacheKey_of req \<noteq> []"
    and "fst (getFromResolveCache t_get resolveCache (cacheKey_of req)) = None"
    and "fetchHtml (searchUrl_of req) = None
         \<or> (\<exists>page. fetchHtml (searchUrl_of req) = Some page
                    \<and> (\<forall>i. videoId_match_here (drop i page) = None))"
  shows "let cache2 = (snd (getFromResolveCache t_get resolveCache (cacheKey_of req)))
                        (cacheKey_of req \<mapsto>
                           \<lparr>youtubeUrl = None, musicUrl = None, expiresAt = t_set + 3600000\<rparr>)
         in resolve_music_url fetchHtml t_get t_set resolveCache req
              = (Json \<lparr>youtubeUrl = None, musicUrl = None\<rparr>, cache2, [searchUrl_of req])
            \<and> (\<forall>req' fetchHtml' t_get' t_set'.
                  cacheKey_of req' = cacheKey_of req \<longrightarrow> t_get' < t_set + 3600000 \<longrightarrow>
                  resolve_music_url fetchHtml' t_get' t_set' cache2 req'
                  = (Json \<lparr>youtubeUrl = None, musicUrl = None\<rparr>, cache2, []))"
proof -
  define cache1 where "cache1 = snd (getFromResolveCache t_get resolveCache (cacheKey_of req))"
  define cache2 where "cache2 = cache1(cacheKey_of req \<mapsto>
      \<lparr>youtubeUrl = None, musicUrl = None, expiresAt = t_set + 3600000\<rparr>)"
  from assms(2) have miss:
    "getFromResolveCache t_get resolveCache (cacheKey_of req) = (None, cache1)"
    by (simp add: cache1_def prod_eq_iff)
  from assms(3) have none: "extractFirstVideoId (fetchHtml (searchUrl_of req)) = None"
    by (auto simp: extractFirstVideoId_failed extractFirstVideoId_no_match)
  have store: "setResolveCache t_set cache1 (cacheKey_of req) None None = cache2"
    using assms(1) by (simp add: setResolveCache_def cache2_def RESOLVE_CACHE_TTL_MS_def)
  have first: "resolve_music_url fetchHtml t_get t_set resolveCache req
              = (Json \<lparr>youtubeUrl = None, musicUrl = None\<rparr>, cache2, [searchUrl_of req])"
    using resolve_music_url_miss [OF assms(1) miss] none store by simp
  have second: "resolve_music_url fetchHtml' t_get' t_set' cache2 req'
                  = (Json \<lparr>youtubeUrl = None, musicUrl = None\<rparr>, cache2, [])"
    if k: "cacheKey_of req' = cacheKey_of req" and t: "t_get' < t_set + 3600000"
    for req' fetchHtml' t_get' t_set'
  proof -
    from k assms(1) have ne: "cacheKey_of req' \<noteq> []" by simp
    have "getFromResolveCache t_get' cache2 (cacheKey_of req')
          = (Some \<lparr>youtubeUrl = None, musicUrl = None\<rparr>, cache2)"
      using ne k t by (simp add: getFromResolveCache_def cache2_def)
    from resolve_music_url_hit [OF ne this] show ?thesis by simp
  qed
  from first second show ?thesis
    unfolding Let_def cache2_def cache1_def by blast
qed


theorem negative_result_cached_witness:
  "resolve_music_url (\<lambda>_. None) 0 10 Map.empty
     \<lparr>youtubeSearchUrl = None, query = Some (js ''lofi'')\<rparr>
   = (Json \<lparr>youtubeUrl = None, musicUrl = None\<rparr>,
      [js ''lofi'' \<mapsto> \<lparr>youtubeUrl = None, musicUrl = None, expiresAt = 3600010\<rparr>],
      [js ''https://www.youtube.com/results?search_query=lofi''])
   \<and> resolve_music_url (\<lambda>_. Some (videoId_marker @ js ''dQw4w9WgXcQ'' @ [0x22])) 3600009 3600020
       [js ''lofi'' \<mapsto> \<lparr>youtubeUrl = None, musicUrl = None, expiresAt = 3600010\<rparr>]
       \<lparr>youtubeSearchUrl = None, query = Some (js '' lofi '')\<rparr>
   = (Json \<lparr>youtubeUrl = None, musicUrl = None\<rparr>,
      [js ''lofi'' \<mapsto> \<lparr>youtubeUrl = None, musicUrl = None, expiresAt = 3600010\<rparr>], [])"
proof -
  let ?req = "\<lparr>youtubeSearchUrl = None, query = Some (js ''lofi'')\<rparr>"
  let ?req' = "\<lparr>youtubeSearchUrl = None, query = Some (js '' lofi '')\<rparr>"
  have key: "cacheKey_of ?req = js ''lofi''" and key': "cacheKey_of ?req' = js ''lofi''"
    by (simp_all add: cacheKey_of_def string_eval)
  have url: "searchUrl_of ?req = js ''https://www.youtube.com/results?search_query=lofi''"
    by (simp add: searchUrl_of_def buildYoutubeSearchUrl_def string_eval form_unescaped_def
        is_alnum_def)
  have p1: "cacheKey_of ?req \<noteq> []"
    by (simp add: key) (simp add: js_def)
  have p2: "fst (getFromResolveCache 0 Map.empty (cacheKey_of ?req)) = None"
    by (simp add: getFromResolveCache_def)
  have p3: "(\<lambda>_. None) (searchUrl_of ?req) = None
         \<or> (\<exists>page. (\<lambda>_. None) (searchUrl_of ?req) = Some page
                    \<and> (\<forall>i. videoId_match_here (drop i page) = None))"
    by simp
  have c1: "snd (getFromResolveCache 0 Map.empty (cacheKey_of ?req)) = Map.empty"
    by (simp add: getFromResolveCache_def)
  have t: "(3600009::int) < 10 + 3600000" by simp
  note th = negative_result_cached [where req = ?req and t_get = 0 and t_set = 10
      and resolveCache = Map.empty and fetchHtml = "\<lambda>_. None", OF p1 p2 p3, unfolded Let_def c1]
  from th have a: "resolve_music_url (\<lambda>_. None) 0 10 Map.empty ?req
      = (Json \<lparr>youtubeUrl = None, musicUrl = None\<rparr>,
         [cacheKey_of ?req \<mapsto> \<lparr>youtubeUrl = None, musicUrl = None, expiresAt = 10 + 3600000\<rparr>],
         [searchUrl_of ?req])"
    by (rule conjunct1)
  from th have "cacheKey_of ?req' = cacheKey_of ?req \<longrightarrow> (3600009::int) < 10 + 3600000 \<longrightarrow>
      resolve_music_url (\<lambda>_. Some (videoId_marker @ js ''dQw4w9WgXcQ'' @ [0x22])) 3600009 3600020
        [cacheKey_of ?req \<mapsto> \<lparr>youtubeUrl = None, musicUrl = None, expiresAt = 10 + 3600000\<rparr>] ?req'
      = (Json \<lparr>youtubeUrl = None, musicUrl = None\<rparr>,
         [cacheKey_of ?req \<mapsto> \<lparr>youtubeUrl = None, musicUrl = None, expiresAt = 10 + 3600000\<rparr>], [])"
    by blast
  with key key' t have b:
    "resolve_music_url (\<lambda>_. Some (videoId_marker @ js ''dQw4w9WgXcQ'' @ [0x22])) 3600009 3600020
        [cacheKey_of ?req \<mapsto> \<lparr>youtubeUrl = None, musicUrl = None, expiresAt = 10 + 3600000\<rparr>] ?req'
      = (Json \<lparr>youtubeUrl = None, musicUrl = None\<rparr>,
         [cacheKey_of ?req \<mapsto> \<lparr>youtubeUrl = None, musicUrl = None, expiresAt = 10 + 3600000\<rparr>], [])"
    by simp
  have n: "(10::int) + 3600000 = 3600010" by simp
  from a b show ?thesis
    unfolding key url n by (rule conjI)
qed

lemma videoId_marker_length: "length videoId_marker = 11"
  by (simp add: videoId_marker_def js_def)

lemma videoId_match_here_found:
  assumes "length tok = 11" and "list_all is_id_char tok"
  shows "videoId_match_here (videoId_marker @ tok @ [0x22] @ post) = Some (tok, post)"
  using assms by (simp add: videoId_match_here_def Let_def)

lemma videoId_exec_here:
  "videoId_match_here s = Some m \<Longrightarrow> videoId_exec s = Some m"
  by (cases s) (simp_all add: videoId_match_here_def videoId_marker_def)

lemma videoId_exec_skip:
  "(\<forall>i<length pre. \<not> prefix videoId_marker (drop i (pre @ s))) \<Longrightarrow>
     videoId_exec (pre @ s) = videoId_exec s"
proof (induction pre)
  case Nil
  then show ?case by simp
next
  case (Cons c pre)
  from Cons.prems [rule_format, of 0] have "\<not> prefix videoId_marker (c # pre @ s)"
    by simp
  then have here: "videoId_match_here (c # pre @ s) = None"
    by (simp add: videoId_match_here_def)
  have "\<not> prefix videoId_marker (drop i (pre @ s))" if "i < length pre" for i
    using Cons.prems [rule_format, of "Suc i"] that by simp
  then have "videoId_exec (pre @ s) = videoId_exec s"
    using Cons.IH by simp
  with here show ?case by simp
qed

lemma extractFirstVideoId_first:
  assumes "\<forall>i<length pre. \<not> prefix videoId_marker (drop i (pre @ videoId_marker @ tok @ [0x22] @ post))"
    and "length tok = 11" and "list_all is_id_char tok"
  shows "extractFirstVideoId (Some (pre @ videoId_marker @ tok @ [0x22] @ post)) = Some tok"
proof -
  let ?s = "videoId_marker @ tok @ [0x22] @ post"
  have "videoId_exec ?s = Some (tok, post)"
    using videoId_match_here_found [OF assms(2,3)] by (rule videoId_exec_here)
  with videoId_exec_skip [OF assms(1)] have "videoId_exec (pre @ ?s) = Some (tok, post)"
    by simp
  then have "videoId_loop (pre @ ?s) = Some tok"
    using assms(2) by (subst videoId_loop.simps) auto
  moreover have "pre @ ?s \<noteq> []"
    by (simp add: videoId_marker_def)
  ultimately show ?thesis
    by (simp add: extractFirstVideoId_def truthy_def or_empty_def)
qed


lemmas video_eval = extractFirstVideoId_def videoId_loop.simps videoId_match_here_def
  videoId_marker_def is_id_char_def is_alnum_def

text \<open>
  Claim C3, as the code has it. The pattern ends with a closing double quote, so the
  token must be followed by one. For a request that is not rejected and misses the cache,
  and a fetched page in which the first occurrence of the marker is followed by eleven
  code units of letters, digits, hyphens or underscores and then a double quote, the
  extracted identifier is that token, the handler answers with
  \<open>https://www.youtube.com/watch?v=\<close> and \<open>https://music.youtube.com/watch?v=\<close> each
  followed by the token, and it stores the pair in the resolve cache.
\<close>

theorem first_videoId_resolved:
  assumes "cacheKey_of req \<noteq> []"
    and "fst (getFromResolveCache t_get resolveCache (cacheKey_of req)) = None"
    and "fetchHtml (searchUrl_of req) = Some (pre @ videoId_marker @ tok @ [0x22] @ post)"
    and "\<forall>i<length pre.
           \<not> prefix videoId_marker (drop i (pre @ videoId_marker @ tok @ [0x22] @ post))"
    and "length tok = 11"
    and "list_all is_id_char tok"
  shows "extractFirstVideoId (fetchHtml (searchUrl_of req)) = Some tok
       \<and> resolve_music_url fetchHtml t_get t_set resolveCache req
         = (Json \<lparr>youtubeUrl = Some (js ''https://www.youtube.com/watch?v='' @ tok),
                  musicUrl = Some (js ''https://music.youtube.com/watch?v='' @ tok)\<rparr>,
            (snd (getFromResolveCache t_get resolveCache (cacheKey_of req)))
              (cacheKey_of req \<mapsto>
                 \<lparr>youtubeUrl = Some (js ''https://www.youtube.com/watch?v='' @ tok),
                  musicUrl = Some (js ''https://music.youtube.com/watch?v='' @ tok),
                  expiresAt = t_set + 3600000\<rparr>),
            [searchUrl_of req])"
proof -
  from assms(2) have miss:
    "getFromResolveCache t_get resolveCache (cacheKey_of req)
     = (None, snd (getFromResolveCache t_get resolveCache (cacheKey_of req)))"
    by (simp add: prod_eq_iff)
  have found: "extractFirstVideoId (fetchHtml (searchUrl_of req)) = Some tok"
    unfolding assms(3) using assms(4-6) by (rule extractFirstVideoId_first)
  from resolve_music_url_miss [OF assms(1) miss] found assms(1) show ?thesis
    by (simp add: setResolveCache_def RESOLVE_CACHE_TTL_MS_def)
qed

theorem first_videoId_resolved_witness:
  "resolve_music_url
     (\<lambda>_. Some (js ''<script>{'' @ videoId_marker @ js ''dQw4w9WgXcQ'' @ [0x22] @ js ''}''))
     0 10 Map.empty \<lparr>youtubeSearchUrl = None, query = Some (js ''rick'')\<rparr>
   = (Json \<lparr>youtubeUrl = Some (js ''https://www.youtube.com/watch?v=dQw4w9WgXcQ''),
            musicUrl = Some (js ''https://music.youtube.com/watch?v=dQw4w9WgXcQ'')\<rparr>,
      [js ''rick'' \<mapsto>
         \<lparr>youtubeUrl = Some (js ''https://www.youtube.com/watch?v=dQw4w9WgXcQ''),
          musicUrl = Some (js ''https://music.youtube.com/watch?v=dQw4w9WgXcQ''),
          expiresAt = 3600010\<rparr>],
      [js ''https://www.youtube.com/results?search_query=rick''])"
proof -
  let ?req = "\<lparr>youtubeSearchUrl = None, query = Some (js ''rick'')\<rparr>"
  let ?pre = "js ''<script>{''"
  let ?tok = "js ''dQw4w9WgXcQ''"
  let ?post = "js ''}''"
  let ?fetch = "\<lambda>_::jsstring. Some (?pre @ videoId_marker @ ?tok @ [0x22] @ ?post)"
  have key: "cacheKey_of ?req = js ''rick''"
    by (simp add: cacheKey_of_def string_eval)
  have url: "searchUrl_of ?req = js ''https://www.youtube.com/results?search_query=rick''"
    by (simp add: searchUrl_of_def buildYoutubeSearchUrl_def string_eval form_unescaped_def
        is_alnum_def)
  have p1: "cacheKey_of ?req \<noteq> []"
    by (simp add: key) (simp add: js_def)
  have p2: "fst (getFromResolveCache 0 Map.empty (cacheKey_of ?req)) = None"
    by (simp add: getFromResolveCache_def)
  have p3: "?fetch (searchUrl_of ?req) = Some (?pre @ videoId_marker @ ?tok @ [0x22] @ ?post)"
    by simp
  have p4: "\<forall>i<length ?pre.
           \<not> prefix videoId_marker (drop i (?pre @ videoId_marker @ ?tok @ [0x22] @ ?post))"
    by (simp add: js_def videoId_marker_def less_Suc_eq all_conj_distrib)
  have p5: "length ?tok = 11" by (simp add: js_def)
  have p6: "list_all is_id_char ?tok" by (simp add: js_def is_id_char_def is_alnum_def)
  have c1: "snd (getFromResolveCache 0 Map.empty (cacheKey_of ?req)) = Map.empty"
    by (simp add: getFromResolveCache_def)
  have n: "(10::int) + 3600000 = 3600010" by simp
  have y: "js ''https://www.youtube.com/watch?v='' @ ?tok
           = js ''https://www.youtube.com/watch?v=dQw4w9WgXcQ''"
    and m: "js ''https://music.youtube.com/watch?v='' @ ?tok
           = js ''https://music.youtube.com/watch?v=dQw4w9WgXcQ''"
    by (simp_all add: js_def)
  from first_videoId_resolved [where fetchHtml = ?fetch and t_set = 10, OF p1 p2 p3 p4 p5 p6]
  have "resolve_music_url ?fetch 0 10 Map.empty ?req
         = (Json \<lparr>youtubeUrl = Some (js ''https://www.youtube.com/watch?v='' @ ?tok),
                  musicUrl = Some (js ''https://music.youtube.com/watch?v='' @ ?tok)\<rparr>,
            (snd (getFromResolveCache 0 Map.empty (cacheKey_of ?req)))
              (cacheKey_of ?req \<mapsto>
                 \<lparr>youtubeUrl = Some (js ''https://www.youtube.com/watch?v='' @ ?tok),
                  musicUrl = Some (js ''https://music.youtube.com/watch?v='' @ ?tok),
                  expiresAt = 10 + 3600000\<rparr>),
            [searchUrl_of ?req])"
    by (rule conjunct2)
  then show ?thesis
    unfolding c1 key url n y m c1 [unfolded key] .
qed

text \<open>
  The claim as it was stated does not ask for the closing quote. In the page
  \<open>"videoId":"dQw4w9WgXcQ&t=1s","videoId":"abcdefghijk"\<close> the first occurrence of the marker
  is followed by the eleven-character token \<open>dQw4w9WgXcQ\<close>, and the handler answers with
  the second token.
\<close>

theorem first_videoId_counterexample:
  "fst (resolve_music_url
     (page_server (videoId_marker @ js ''dQw4w9WgXcQ&t=1s'' @ [0x22, 0x2C] @
                   videoId_marker @ js ''abcdefghijk'' @ [0x22]))
     0 10 Map.empty \<lparr>youtubeSearchUrl = None, query = Some (js ''rick'')\<rparr>)
   = Json \<lparr>youtubeUrl = Some (js ''https://www.youtube.com/watch?v=abcdefghijk''),
           musicUrl = Some (js ''https://music.youtube.com/watch?v=abcdefghijk'')\<rparr>
   \<and> list_all is_id_char (js ''dQw4w9WgXcQ'')
   \<and> js ''https://www.youtube.com/watch?v=abcdefghijk''
     \<noteq> js ''https://www.youtube.com/watch?v=dQw4w9WgXcQ''"
proof -
  let ?req = "\<lparr>youtubeSearchUrl = None, query = Some (js ''rick'')\<rparr>"
  let ?page = "videoId_marker @ js ''dQw4w9WgXcQ&t=1s'' @ [0x22, 0x2C] @
                 videoId_marker @ js ''abcdefghijk'' @ [0x22]"
  have p1: "cacheKey_of ?req \<noteq> []"
    by (simp add: cacheKey_of_def string_eval)
  have p2: "getFromResolveCache 0 Map.empty (cacheKey_of ?req) = (None, Map.empty)"
    by (simp add: getFromResolveCache_def)
  have x: "extractFirstVideoId (Some ?page) = Some (js ''abcdefghijk'')"
    by (simp add: video_eval string_eval)
  have "fst (resolve_music_url (page_server ?page) 0 10 Map.empty ?req)
        = Json \<lparr>youtubeUrl = Some (js ''https://www.youtube.com/watch?v='' @ js ''abcdefghijk''),
           musicUrl = Some (js ''https://music.youtube.com/watch?v='' @ js ''abcdefghijk'')\<rparr>"
    using resolve_music_url_miss [OF p1 p2, where fetchHtml = "page_server ?page"] x
    by (simp add: page_server_def)
  moreover have "list_all is_id_char (js ''dQw4w9WgXcQ'')"
    by (simp add: js_def is_id_char_def is_alnum_def)
  moreover have "js ''https://www.youtube.com/watch?v=abcdefghijk''
     \<noteq> js ''https://www.youtube.com/watch?v=dQw4w9WgXcQ''"
    by (simp add: js_def)
  ultimately show ?thesis by (simp add: js_def)
qed

section \<open>Properties of the podcast resolver\<close>

text \<open>One iteration of the second loop: the four ways through its body.\<close>

lemma dedupe_loop_step:
  obtains
    (skip) "id_falsy (podcast_id_of p) \<or> podcast_id_of p \<in> seen"
      and "\<forall>ps. dedupe_loop seen unique (p # ps) = dedupe_loop seen unique ps"
  | (unusable) "\<not> id_falsy (podcast_id_of p)" and "podcast_id_of p \<notin> seen"
      and "\<not> truthy (title p) \<or> \<not> truthy (trackViewUrl p)"
      and "\<forall>ps. dedupe_loop seen unique (p # ps)
                = dedupe_loop (insert (podcast_id_of p) seen) unique ps"
  | (stop) "\<not> id_falsy (podcast_id_of p)" and "podcast_id_of p \<notin> seen"
      and "truthy (title p)" and "truthy (trackViewUrl p)"
      and "PODCAST_DEFAULT_LIMIT \<le> Suc (length unique)"
      and "\<forall>ps. dedupe_loop seen unique (p # ps) = unique @ [p]"
  | (go) "\<not> id_falsy (podcast_id_of p)" and "podcast_id_of p \<notin> seen"
      and "truthy (title p)" and "truthy (trackViewUrl p)"
      and "Suc (length unique) < PODCAST_DEFAULT_LIMIT"
      and "\<forall>ps. dedupe_loop seen unique (p # ps)
                = dedupe_loop (insert (podcast_id_of p) seen) (unique @ [p]) ps"
proof (cases "id_falsy (podcast_id_of p) \<or> podcast_id_of p \<in> seen")
  case True
  then have "\<forall>ps. dedupe_loop seen unique (p # ps) = dedupe_loop seen unique ps"
    by (simp add: Let_def)
  with True show ?thesis by (rule skip)
next
  case fresh: False
  show ?thesis
  proof (cases "\<not> truthy (title p) \<or> \<not> truthy (trackViewUrl p)")
    case True
    with fresh have "\<forall>ps. dedupe_loop seen unique (p # ps)
           = dedupe_loop (insert (podcast_id_of p) seen) unique ps"
      by (simp add: Let_def)
    with fresh True show ?thesis by (intro unusable) simp_all
  next
    case False
    show ?thesis
    proof (cases "PODCAST_DEFAULT_LIMIT \<le> Suc (length unique)")
      case True
      with fresh False have "\<forall>ps. dedupe_loop seen unique (p # ps) = unique @ [p]"
        by (simp add: Let_def)
      with fresh False True show ?thesis by (intro stop) simp_all
    next
      case more: False
      with fresh False have "\<forall>ps. dedupe_loop seen unique (p # ps)
           = dedupe_loop (insert (podcast_id_of p) seen) (unique @ [p]) ps"
        by (simp add: Let_def)
      with fresh False more show ?thesis by (intro go) simp_all
    qed
  qed
qed

declare dedupe_loop.simps(2) [simp del]

lemma dedupe_loop_length:
  "length unique < PODCAST_DEFAULT_LIMIT \<Longrightarrow>
     length (dedupe_loop seen unique ps) \<le> PODCAST_DEFAULT_LIMIT"
proof (induction ps arbitrary: seen unique)
  case Nil
  then show ?case by simp
next
  case (Cons p ps)
  show ?case
  proof (cases rule: dedupe_loop_step [of p seen unique])
    case skip
    with Cons.IH [OF Cons.prems] show ?thesis by simp
  next
    case unusable
    with Cons.IH [OF Cons.prems] show ?thesis by simp
  next
    case stop
    with Cons.prems show ?thesis by simp
  next
    case go
    then have "length (unique @ [p]) < PODCAST_DEFAULT_LIMIT" by simp
    from Cons.IH [OF this] go show ?thesis by simp
  qed
qed

lemma dedupe_loop_distinct:
  "distinct (map podcast_id_of unique) \<Longrightarrow> podcast_id_of ` set unique \<subseteq> seen \<Longrightarrow>
     distinct (map podcast_id_of (dedupe_loop seen unique ps))"
proof (induction ps arbitrary: seen unique)
  case Nil
  then show ?case by simp
next
  case (Cons p ps)
  let ?i = "podcast_id_of p"
  have wider: "podcast_id_of ` set unique \<subseteq> insert ?i seen"
    using Cons.prems(2) by blast
  have pushed: "distinct (map podcast_id_of (unique @ [p]))"
    and pushed_seen: "podcast_id_of ` set (unique @ [p]) \<subseteq> insert ?i seen"
    if "?i \<notin> seen"
    using that Cons.prems by auto
  show ?case
  proof (cases rule: dedupe_loop_step [of p seen unique])
    case skip
    with Cons.IH [OF Cons.prems] show ?thesis by simp
  next
    case unusable
    with Cons.IH [OF Cons.prems(1) wider] show ?thesis by simp
  next
    case stop
    with pushed show ?thesis by simp
  next
    case go
    from go(2) have "distinct (map podcast_id_of (unique @ [p]))"
      and "podcast_id_of ` set (unique @ [p]) \<subseteq> insert ?i seen"
      by (rule pushed, rule pushed_seen)
    then have "distinct (map podcast_id_of
        (dedupe_loop (insert ?i seen) (unique @ [p]) ps))"
      by (rule Cons.IH)
    with go show ?thesis by simp
  qed
qed

lemma dedupe_loop_usable:
  "\<forall>x\<in>set unique. truthy (title x) \<and> truthy (trackViewUrl x) \<Longrightarrow>
     x \<in> set (dedupe_loop seen unique ps) \<Longrightarrow> truthy (title x) \<and> truthy (trackViewUrl x)"
proof (induction ps arbitrary: seen unique)
  case Nil
  then show ?case by simp
next
  case (Cons p ps)
  have pushed: "\<forall>x\<in>set (unique @ [p]). truthy (title x) \<and> truthy (trackViewUrl x)"
    if "truthy (title p)" and "truthy (trackViewUrl p)"
    using that Cons.prems(1) by simp
  show ?case
  proof (cases rule: dedupe_loop_step [of p seen unique])
    case skip
    with Cons.prems have "x \<in> set (dedupe_loop seen unique ps)" by simp
    with Cons.prems(1) show ?thesis by (rule Cons.IH)
  next
    case unusable
    with Cons.prems have "x \<in> set (dedupe_loop (insert (podcast_id_of p) seen) unique ps)"
      by simp
    with Cons.prems(1) show ?thesis by (rule Cons.IH)
  next
    case stop
    with Cons.prems(2) have "x \<in> set (unique @ [p])" by simp
    with pushed [OF stop(3,4)] show ?thesis by blast
  next
    case go
    with Cons.prems(2) have
      "x \<in> set (dedupe_loop (insert (podcast_id_of p) seen) (unique @ [p]) ps)"
      by simp
    with pushed [OF go(3,4)] show ?thesis by (rule Cons.IH)
  qed
qed

lemma filter_distinct_image:
  "distinct (map f xs) \<Longrightarrow> \<forall>x. P x \<longrightarrow> f x = c \<Longrightarrow> length (filter P xs) \<le> 1"
proof (induction xs)
  case Nil
  then show ?case by simp
next
  case (Cons x xs)
  show ?case
  proof (cases "P x")
    case True
    with Cons.prems have "f x = c" and "f x \<notin> f ` set xs" by simp_all
    have "\<not> P y" if "y \<in> set xs" for y
    proof
      assume "P y"
      with Cons.prems(2) \<open>f x = c\<close> have "f x = f y" by simp
      with that \<open>f x \<notin> f ` set xs\<close> show False by blast
    qed
    then have "filter P xs = []" by (simp add: filter_empty_conv)
    with True show ?thesis by simp
  next
    case False
    with Cons show ?thesis by simp
  qed
qed

lemmas podcast_eval = resolve_podcasts_def fetchItunesPodcastsByTerm_def podcast_id_of_def
  id_falsy_def PODCAST_DEFAULT_LIMIT_def example_podcast_def dedupe_loop.simps

text \<open>
  Claim C7. Every entry of the list that the second loop builds, from any accumulated
  sequence, has a non-empty title and a non-empty \<open>trackViewUrl\<close>. So an entry whose title
  or \<open>trackViewUrl\<close> is \<open>null\<close> or empty is not in the list, whatever its collection id,
  and the same holds for the list the resolver builds from the search terms.
\<close>

theorem unusable_never_listed:
  "(x \<in> set (dedupe_loop {} [] all) \<longrightarrow> truthy (title x) \<and> truthy (trackViewUrl x))
   \<and> (\<not> truthy (title q) \<or> \<not> truthy (trackViewUrl q) \<longrightarrow>
        q \<notin> set (dedupe_loop {} [] all) \<and> q \<notin> set (resolve_podcasts catalog terms))"
proof -
  have usable: "truthy (title y) \<and> truthy (trackViewUrl y)"
    if "y \<in> set (dedupe_loop {} [] ps)" for y ps
    using _ that by (rule dedupe_loop_usable) simp
  then have "q \<notin> set (dedupe_loop {} [] ps)"
    if "\<not> truthy (title q) \<or> \<not> truthy (trackViewUrl q)" for ps
    using that by blast
  with usable show ?thesis
    unfolding resolve_podcasts_def by blast
qed

theorem unusable_never_listed_witness:
  "example_podcast (Some 7) None (Some (js ''https://p/7''))
     \<notin> set (dedupe_loop {} []
         [example_podcast (Some 7) None (Some (js ''https://p/7'')),
          example_podcast (Some 8) (Some (js ''Focus'')) (Some (js ''https://p/8''))])
   \<and> dedupe_loop {} []
         [example_podcast (Some 7) None (Some (js ''https://p/7'')),
          example_podcast (Some 8) (Some (js ''Focus'')) (Some (js ''https://p/8''))]
     = [example_podcast (Some 8) (Some (js ''Focus'')) (Some (js ''https://p/8''))]"
proof -
  let ?q = "example_podcast (Some 7) None (Some (js ''https://p/7''))"
  let ?all = "[?q, example_podcast (Some 8) (Some (js ''Focus'')) (Some (js ''https://p/8''))]"
  have "\<not> truthy (title ?q) \<or> \<not> truthy (trackViewUrl ?q)"
    by (simp add: example_podcast_def truthy_def)
  with unusable_never_listed [of _ ?all ?q] have "?q \<notin> set (dedupe_loop {} [] ?all)"
    by blast
  moreover have "dedupe_loop {} [] ?all
     = [example_podcast (Some 8) (Some (js ''Focus'')) (Some (js ''https://p/8''))]"
    by (simp add: podcast_eval string_eval)
  ultimately show ?thesis by (rule conjI)
qed

lemma dedupe_loop_tail_cong:
  assumes "\<And>s v. seen \<subseteq> s \<Longrightarrow> dedupe_loop s v r1 = dedupe_loop s v r2"
  shows "dedupe_loop seen unique (xs @ r1) = dedupe_loop seen unique (xs @ r2)"
  using assms
proof (induction xs arbitrary: seen unique)
  case Nil
  then show ?case by simp
next
  case (Cons p xs)
  have wider: "dedupe_loop s v r1 = dedupe_loop s v r2"
    if "insert (podcast_id_of p) seen \<subseteq> s" for s v
    using that by (intro Cons.prems) blast
  show ?case
  proof (cases rule: dedupe_loop_step [of p seen unique])
    case skip
    have "dedupe_loop seen unique (xs @ r1) = dedupe_loop seen unique (xs @ r2)"
      by (rule Cons.IH) (rule Cons.prems)
    with skip show ?thesis by simp
  next
    case unusable
    have "dedupe_loop (insert (podcast_id_of p) seen) unique (xs @ r1)
          = dedupe_loop (insert (podcast_id_of p) seen) unique (xs @ r2)"
      by (rule Cons.IH) (rule wider)
    with unusable show ?thesis by simp
  next
    case stop
    then show ?thesis by simp
  next
    case go
    have "dedupe_loop (insert (podcast_id_of p) seen) (unique @ [p]) (xs @ r1)
          = dedupe_loop (insert (podcast_id_of p) seen) (unique @ [p]) (xs @ r2)"
      by (rule Cons.IH) (rule wider)
    with go show ?thesis by simp
  qed
qed

lemma dedupe_loop_drop_seen:
  assumes "id_falsy (podcast_id_of q) \<or> podcast_id_of q \<in> seen"
  shows "dedupe_loop seen unique (ys @ q # zs) = dedupe_loop seen unique (ys @ zs)"
proof (rule dedupe_loop_tail_cong)
  fix s v
  assume "seen \<subseteq> s"
  with assms have "id_falsy (podcast_id_of q) \<or> podcast_id_of q \<in> s" by blast
  then show "dedupe_loop s v (q # zs) = dedupe_loop s v zs"
    by (cases rule: dedupe_loop_step [of q s v]) simp_all
qed

lemma dedupe_loop_after_unusable:
  assumes "podcast_id_of u = podcast_id_of q"
    and "\<not> truthy (title u) \<or> \<not> truthy (trackViewUrl u)"
  shows "dedupe_loop seen unique (u # ys @ q # zs) = dedupe_loop seen unique (u # ys @ zs)"
proof (cases rule: dedupe_loop_step [of u seen unique])
  case skip
  with assms(1) have "id_falsy (podcast_id_of q) \<or> podcast_id_of q \<in> seen" by simp
  from dedupe_loop_drop_seen [OF this] skip show ?thesis by simp
next
  case unusable
  from assms(1) have "id_falsy (podcast_id_of q) \<or> podcast_id_of q \<in> insert (podcast_id_of u) seen"
    by simp
  from dedupe_loop_drop_seen [OF this] unusable show ?thesis by simp
next
  case stop
  with assms(2) show ?thesis by simp
next
  case go
  with assms(2) show ?thesis by simp
qed

lemma dedupe_loop_seen_id:
  "id_falsy i \<or> i \<in> seen \<Longrightarrow> x \<in> set (dedupe_loop seen unique ps) \<Longrightarrow>
     podcast_id_of x = i \<Longrightarrow> x \<in> set unique"
proof (induction ps arbitrary: seen unique)
  case Nil
  then show ?case by simp
next
  case (Cons p ps)
  have wider: "id_falsy i \<or> i \<in> insert (podcast_id_of p) seen"
    using Cons.prems(1) by blast
  have not_p: "x \<noteq> p" if "\<not> id_falsy (podcast_id_of p)" and "podcast_id_of p \<notin> seen"
    using that Cons.prems(1,3) by auto
  show ?case
  proof (cases rule: dedupe_loop_step [of p seen unique])
    case skip
    with Cons.prems(2) have "x \<in> set (dedupe_loop seen unique ps)" by simp
    from Cons.IH [OF Cons.prems(1) this Cons.prems(3)] show ?thesis .
  next
    case unusable
    with Cons.prems(2) have "x \<in> set (dedupe_loop (insert (podcast_id_of p) seen) unique ps)"
      by simp
    from Cons.IH [OF wider this Cons.prems(3)] show ?thesis .
  next
    case stop
    with Cons.prems(2) have "x \<in> set (unique @ [p])" by simp
    with not_p [OF stop(1,2)] show ?thesis by simp
  next
    case go
    with Cons.prems(2) have
      "x \<in> set (dedupe_loop (insert (podcast_id_of p) seen) (unique @ [p]) ps)"
      by simp
    from Cons.IH [OF wider this Cons.prems(3)] have "x \<in> set (unique @ [p])" .
    with not_p [OF go(1,2)] show ?thesis by simp
  qed
qed

lemma dedupe_loop_first_unusable:
  assumes "\<forall>y\<in>set xs. podcast_id_of y \<noteq> podcast_id_of u"
    and "\<not> truthy (title u) \<or> \<not> truthy (trackViewUrl u)"
    and "x \<in> set (dedupe_loop seen unique (xs @ u # rest))"
    and "podcast_id_of x = podcast_id_of u"
  shows "x \<in> set unique"
  using assms(1,3)
proof (induction xs arbitrary: seen unique)
  case Nil
  then have mem: "x \<in> set (dedupe_loop seen unique (u # rest))" by simp
  show ?case
  proof (cases rule: dedupe_loop_step [of u seen unique])
    case skip
    with mem have "x \<in> set (dedupe_loop seen unique rest)" by simp
    from dedupe_loop_seen_id [OF skip(1) this assms(4)] show ?thesis .
  next
    case unusable
    with mem have later: "x \<in> set (dedupe_loop (insert (podcast_id_of u) seen) unique rest)"
      by simp
    have "id_falsy (podcast_id_of u) \<or> podcast_id_of u \<in> insert (podcast_id_of u) seen"
      by simp
    from dedupe_loop_seen_id [OF this later assms(4)] show ?thesis .
  next
    case stop
    with assms(2) show ?thesis by simp
  next
    case go
    with assms(2) show ?thesis by simp
  qed
next
  case (Cons p xs)
  from Cons.prems(1) have rest_ids: "\<forall>y\<in>set xs. podcast_id_of y \<noteq> podcast_id_of u"
    and not_p: "x \<noteq> p"
    using assms(4) by auto
  from Cons.prems(2) have mem: "x \<in> set (dedupe_loop seen unique (p # (xs @ u # rest)))"
    by simp
  show ?case
  proof (cases rule: dedupe_loop_step [of p seen unique])
    case skip
    with mem have "x \<in> set (dedupe_loop seen unique (xs @ u # rest))" by simp
    from Cons.IH [OF rest_ids this] show ?thesis .
  next
    case unusable
    with mem have
      "x \<in> set (dedupe_loop (insert (podcast_id_of p) seen) unique (xs @ u # rest))"
      by simp
    from Cons.IH [OF rest_ids this] show ?thesis .
  next
    case stop
    with mem have "x \<in> set (unique @ [p])" by simp
    with not_p show ?thesis by simp
  next
    case go
    with mem have
      "x \<in> set (dedupe_loop (insert (podcast_id_of p) seen) (unique @ [p]) (xs @ u # rest))"
      by simp
    from Cons.IH [OF rest_ids this] have "x \<in> set (unique @ [p])" .
    with not_p show ?thesis by simp
  qed
qed

lemma same_identity_same_id:
  assumes "(\<exists>n. n \<noteq> 0 \<and> collectionId u = Some n \<and> collectionId q = Some n)
           \<or> (collectionId u \<in> {None, Some 0} \<and> collectionId q \<in> {None, Some 0}
               \<and> title u = title q \<and> author u = author q)"
  shows "podcast_id_of u = podcast_id_of q"
  using assms by (auto simp: podcast_id_of_def)

text \<open>
  Claim C10, as the code has it. Two entries have the same deduplication key when they
  have the same non-zero collection id, or when each has collection id \<open>null\<close> or 0 and
  they have the same title and author. When an entry without a title or without a
  \<open>trackViewUrl\<close> comes before an entry with the same key, the later entry changes nothing:
  the list is the one the loop builds without it. When furthermore no entry before the
  unusable one has that key, the later entry is not in the list.
\<close>

theorem later_entry_consumed:
  assumes "\<not> truthy (title u) \<or> \<not> truthy (trackViewUrl u)"
    and "(\<exists>n. n \<noteq> 0 \<and> collectionId u = Some n \<and> collectionId q = Some n)
         \<or> (collectionId u \<in> {None, Some 0} \<and> collectionId q \<in> {None, Some 0}
             \<and> title u = title q \<and> author u = author q)"
  shows "dedupe_loop {} [] (xs @ u # ys @ q # zs) = dedupe_loop {} [] (xs @ u # ys @ zs)
       \<and> ((\<forall>y\<in>set xs. podcast_id_of y \<noteq> podcast_id_of q) \<longrightarrow>
            q \<notin> set (dedupe_loop {} [] (xs @ u # ys @ q # zs)))"
proof -
  from assms(2) have same: "podcast_id_of u = podcast_id_of q"
    by (rule same_identity_same_id)
  have "dedupe_loop {} [] (xs @ (u # ys @ q # zs)) = dedupe_loop {} [] (xs @ (u # ys @ zs))"
    by (rule dedupe_loop_tail_cong) (rule dedupe_loop_after_unusable [OF same assms(1)])
  then have dropped:
    "dedupe_loop {} [] (xs @ u # ys @ q # zs) = dedupe_loop {} [] (xs @ u # ys @ zs)"
    by simp
  have absent: "q \<notin> set (dedupe_loop {} [] (xs @ u # ys @ q # zs))"
    if first: "\<forall>y\<in>set xs. podcast_id_of y \<noteq> podcast_id_of q"
  proof
    assume listed: "q \<in> set (dedupe_loop {} [] (xs @ u # ys @ q # zs))"
    from first same have ids: "\<forall>y\<in>set xs. podcast_id_of y \<noteq> podcast_id_of u"
      by simp
    from same have "podcast_id_of q = podcast_id_of u" by simp
    from dedupe_loop_first_unusable [OF ids assms(1) listed this] show False
      by simp
  qed
  from dropped absent show ?thesis by blast
qed

theorem later_entry_consumed_witness:
  "dedupe_loop {} []
     [example_podcast (Some 5) None (Some (js ''https://p/5'')),
      example_podcast (Some 5) (Some (js ''Calm'')) (Some (js ''https://p/5''))]
   = []
   \<and> dedupe_loop {} []
     [example_podcast None (Some (js ''Calm'')) None,
      example_podcast (Some 0) (Some (js ''Calm'')) (Some (js ''https://p/c''))]
   = []"
proof -
  let ?u = "example_podcast (Some 5) None (Some (js ''https://p/5''))"
  let ?q = "example_podcast (Some 5) (Some (js ''Calm'')) (Some (js ''https://p/5''))"
  let ?u' = "example_podcast None (Some (js ''Calm'')) None"
  let ?q' = "example_podcast (Some 0) (Some (js ''Calm'')) (Some (js ''https://p/c''))"
  have u: "\<not> truthy (title ?u) \<or> \<not> truthy (trackViewUrl ?u)"
    and u': "\<not> truthy (title ?u') \<or> \<not> truthy (trackViewUrl ?u')"
    by (simp_all add: example_podcast_def truthy_def)
  have s: "(\<exists>n. n \<noteq> 0 \<and> collectionId ?u = Some n \<and> collectionId ?q = Some n)
         \<or> (collectionId ?u \<in> {None, Some 0} \<and> collectionId ?q \<in> {None, Some 0}
             \<and> title ?u = title ?q \<and> author ?u = author ?q)"
    by (simp add: example_podcast_def)
  have s': "(\<exists>n. n \<noteq> 0 \<and> collectionId ?u' = Some n \<and> collectionId ?q' = Some n)
         \<or> (collectionId ?u' \<in> {None, Some 0} \<and> collectionId ?q' \<in> {None, Some 0}
             \<and> title ?u' = title ?q' \<and> author ?u' = author ?q')"
    by (simp add: example_podcast_def)
  have e: "dedupe_loop {} [] [?u] = []" and e': "dedupe_loop {} [] [?u'] = []"
    by (simp_all add: podcast_eval string_eval)
  from later_entry_consumed [OF u s, of "[]" "[]" "[]"] e
  have "dedupe_loop {} [] [?u, ?q] = []" by simp
  moreover from later_entry_consumed [OF u' s', of "[]" "[]" "[]"] e'
  have "dedupe_loop {} [] [?u', ?q'] = []" by simp
  ultimately show ?thesis by (rule conjI)
qed

text \<open>
  The claim as it was stated counts two entries with the same collection id as the same
  identity. With collection id 0 the key is the title and author instead: after an
  untitled entry with collection id 0, a titled entry with collection id 0 is listed.
\<close>

theorem later_entry_counterexample:
  "dedupe_loop {} []
     [example_podcast (Some 0) None (Some (js ''https://p/0'')),
      example_podcast (Some 0) (Some (js ''Calm'')) (Some (js ''https://p/0''))]
   = [example_podcast (Some 0) (Some (js ''Calm'')) (Some (js ''https://p/0''))]
   \<and> collectionId (example_podcast (Some 0) None (Some (js ''https://p/0'')))
     = collectionId (example_podcast (Some 0) (Some (js ''Calm'')) (Some (js ''https://p/0'')))
   \<and> \<not> truthy (title (example_podcast (Some 0) None (Some (js ''https://p/0''))))
   \<and> truthy (title (example_podcast (Some 0) (Some (js ''Calm'')) (Some (js ''https://p/0''))))
   \<and> truthy (trackViewUrl
        (example_podcast (Some 0) (Some (js ''Calm'')) (Some (js ''https://p/0''))))"
  by (simp add: podcast_eval string_eval)

subsection \<open>The size of the list and the entries with one collection id\<close>

lemma podcast_id_of_number:
  "podcast_id_of y = NumberId n \<longleftrightarrow> collectionId y = Some n \<and> n \<noteq> 0"
  by (cases "collectionId y") (auto simp: podcast_id_of_def)

lemma dedupe_loop_from_input:
  "x \<in> set (dedupe_loop seen unique ps) \<Longrightarrow> x \<in> set unique \<or> x \<in> set ps"
proof (induction ps arbitrary: seen unique)
  case Nil
  then show ?case by simp
next
  case (Cons p ps)
  show ?case
  proof (cases rule: dedupe_loop_step [of p seen unique])
    case skip
    with Cons.prems have "x \<in> set (dedupe_loop seen unique ps)" by simp
    from Cons.IH [OF this] show ?thesis by auto
  next
    case unusable
    with Cons.prems have "x \<in> set (dedupe_loop (insert (podcast_id_of p) seen) unique ps)"
      by simp
    from Cons.IH [OF this] show ?thesis by auto
  next
    case stop
    with Cons.prems have "x \<in> set (unique @ [p])" by simp
    then show ?thesis by auto
  next
    case go
    with Cons.prems have
      "x \<in> set (dedupe_loop (insert (podcast_id_of p) seen) (unique @ [p]) ps)"
      by simp
    from Cons.IH [OF this] show ?thesis by auto
  qed
qed

lemma dedupe_loop_keeps:
  "x \<in> set unique \<Longrightarrow> x \<in> set (dedupe_loop seen unique ps)"
proof (induction ps arbitrary: seen unique)
  case Nil
  then show ?case by simp
next
  case (Cons p ps)
  from Cons.prems have pushed: "x \<in> set (unique @ [p])" by simp
  show ?case
  proof (cases rule: dedupe_loop_step [of p seen unique])
    case skip
    from Cons.IH [OF Cons.prems, of seen] skip show ?thesis by simp
  next
    case unusable
    from Cons.IH [OF Cons.prems, of "insert (podcast_id_of p) seen"] unusable
    show ?thesis by simp
  next
    case stop
    with pushed show ?thesis by simp
  next
    case go
    from Cons.IH [OF pushed, of "insert (podcast_id_of p) seen"] go show ?thesis by simp
  qed
qed

text \<open>
  A prefix of the input that leaves fewer than 20 entries listed did not end the loop:
  the loop goes on with the rest, from the list built so far and a set of seen keys
  that holds only keys of the prefix.
\<close>

lemma dedupe_loop_continues:
  assumes "length (dedupe_loop seen unique xs) < PODCAST_DEFAULT_LIMIT"
  shows "\<exists>seen'. seen' \<subseteq> seen \<union> podcast_id_of ` set xs
           \<and> (\<forall>rest. dedupe_loop seen unique (xs @ rest)
                       = dedupe_loop seen' (dedupe_loop seen unique xs) rest)"
  using assms
proof (induction xs arbitrary: seen unique)
  case Nil
  have "seen \<subseteq> seen \<union> podcast_id_of ` set []
        \<and> (\<forall>rest. dedupe_loop seen unique ([] @ rest)
                    = dedupe_loop seen (dedupe_loop seen unique []) rest)"
    by simp
  then show ?case by blast
next
  case (Cons p xs)
  let ?i = "podcast_id_of p"
  show ?case
  proof (cases rule: dedupe_loop_step [of p seen unique])
    case skip
    with Cons.prems have "length (dedupe_loop seen unique xs) < PODCAST_DEFAULT_LIMIT"
      by simp
    from Cons.IH [OF this] obtain seen' where
      sub: "seen' \<subseteq> seen \<union> podcast_id_of ` set xs"
      and eq: "\<forall>rest. dedupe_loop seen unique (xs @ rest)
                      = dedupe_loop seen' (dedupe_loop seen unique xs) rest"
      by blast
    from sub have "seen' \<subseteq> seen \<union> podcast_id_of ` set (p # xs)" by auto
    moreover from eq skip have
      "\<forall>rest. dedupe_loop seen unique ((p # xs) @ rest)
             = dedupe_loop seen' (dedupe_loop seen unique (p # xs)) rest"
      by simp
    ultimately show ?thesis by blast
  next
    case unusable
    with Cons.prems have
      "length (dedupe_loop (insert ?i seen) unique xs) < PODCAST_DEFAULT_LIMIT"
      by simp
    from Cons.IH [OF this] obtain seen' where
      sub: "seen' \<subseteq> insert ?i seen \<union> podcast_id_of ` set xs"
      and eq: "\<forall>rest. dedupe_loop (insert ?i seen) unique (xs @ rest)
                      = dedupe_loop seen' (dedupe_loop (insert ?i seen) unique xs) rest"
      by blast
    from sub have "seen' \<subseteq> seen \<union> podcast_id_of ` set (p # xs)" by auto
    moreover from eq unusable have
      "\<forall>rest. dedupe_loop seen unique ((p # xs) @ rest)
             = dedupe_loop seen' (dedupe_loop seen unique (p # xs)) rest"
      by simp
    ultimately show ?thesis by blast
  next
    case stop
    with Cons.prems show ?thesis by simp
  next
    case go
    with Cons.prems have
      "length (dedupe_loop (insert ?i seen) (unique @ [p]) xs) < PODCAST_DEFAULT_LIMIT"
      by simp
    from Cons.IH [OF this] obtain seen' where
      sub: "seen' \<subseteq> insert ?i seen \<union> podcast_id_of ` set xs"
      and eq: "\<forall>rest. dedupe_loop (insert ?i seen) (unique @ [p]) (xs @ rest)
                      = dedupe_loop seen' (dedupe_loop (insert ?i seen) (unique @ [p]) xs) rest"
      by blast
    from sub have "seen' \<subseteq> seen \<union> podcast_id_of ` set (p # xs)" by auto
    moreover from eq go have
      "\<forall>rest. dedupe_loop seen unique ((p # xs) @ rest)
             = dedupe_loop seen' (dedupe_loop seen unique (p # xs)) rest"
      by simp
    ultimately show ?thesis by blast
  qed
qed

text \<open>A prefix that fills the list ends the loop: the rest of the input is not read.\<close>

lemma dedupe_loop_full:
  assumes "length unique < PODCAST_DEFAULT_LIMIT"
    and "PODCAST_DEFAULT_LIMIT \<le> length (dedupe_loop seen unique xs)"
  shows "dedupe_loop seen unique (xs @ rest) = dedupe_loop seen unique xs"
  using assms
proof (induction xs arbitrary: seen unique)
  case Nil
  then show ?case by simp
next
  case (Cons p xs)
  let ?i = "podcast_id_of p"
  show ?case
  proof (cases rule: dedupe_loop_step [of p seen unique])
    case skip
    with Cons.prems(2) have "PODCAST_DEFAULT_LIMIT \<le> length (dedupe_loop seen unique xs)"
      by simp
    from Cons.IH [OF Cons.prems(1) this] skip show ?thesis by simp
  next
    case unusable
    with Cons.prems(2) have
      "PODCAST_DEFAULT_LIMIT \<le> length (dedupe_loop (insert ?i seen) unique xs)"
      by simp
    from Cons.IH [OF Cons.prems(1) this] unusable show ?thesis by simp
  next
    case stop
    then show ?thesis by simp
  next
    case go
    then have short: "length (unique @ [p]) < PODCAST_DEFAULT_LIMIT" by simp
    from go Cons.prems(2) have
      "PODCAST_DEFAULT_LIMIT \<le> length (dedupe_loop (insert ?i seen) (unique @ [p]) xs)"
      by simp
    from Cons.IH [OF short this] go show ?thesis by simp
  qed
qed


text \<open>
  How many entries with a given non-zero collection id the loop lists, when \<open>p\<close> is the
  first entry of the input with that id: one when \<open>p\<close> has a title and a \<open>trackViewUrl\<close>
  and the entries before it leave fewer than 20 listed, none otherwise.
\<close>

lemma dedupe_loop_count_id:
  assumes "collectionId p = Some n" and "n \<noteq> 0"
    and "\<forall>y\<in>set xs. collectionId y \<noteq> Some n"
  shows "length (filter (\<lambda>e. collectionId e = Some n) (dedupe_loop {} [] (xs @ p # rest)))
         = (if truthy (title p) \<and> truthy (trackViewUrl p)
               \<and> length (dedupe_loop {} [] xs) < PODCAST_DEFAULT_LIMIT
            then 1 else 0)"
proof -
  let ?final = "dedupe_loop {} [] (xs @ p # rest)"
  let ?listed = "dedupe_loop {} [] xs"
  let ?P = "\<lambda>e. collectionId e = Some n"
  from assms(1,2) have idp: "podcast_id_of p = NumberId n"
    by (simp add: podcast_id_of_number)
  from assms(2,3) have ids: "\<forall>y\<in>set xs. podcast_id_of y \<noteq> podcast_id_of p"
    by (simp add: idp podcast_id_of_number)
  have key: "podcast_id_of e = podcast_id_of p" if "?P e" for e
    using that assms(2) by (simp add: idp podcast_id_of_number)
  have before: "\<not> ?P e" if "e \<in> set ?listed" for e
  proof -
    from dedupe_loop_from_input [OF that] have "e \<in> set xs" by simp
    with assms(3) show ?thesis by blast
  qed
  show ?thesis
  proof (cases "truthy (title p) \<and> truthy (trackViewUrl p)")
    case False
    then have unusable: "\<not> truthy (title p) \<or> \<not> truthy (trackViewUrl p)" by blast
    have "\<not> ?P e" if "e \<in> set ?final" for e
    proof
      assume "?P e"
      then have "podcast_id_of e = podcast_id_of p" by (rule key)
      from dedupe_loop_first_unusable [OF ids unusable that this] show False by simp
    qed
    then have "filter ?P ?final = []" by (simp add: filter_empty_conv)
    with False show ?thesis by auto
  next
    case usable: True
    show ?thesis
    proof (cases "length ?listed < PODCAST_DEFAULT_LIMIT")
      case False
      then have "PODCAST_DEFAULT_LIMIT \<le> length ?listed" by simp
      moreover have "length ([]::podcast list) < PODCAST_DEFAULT_LIMIT"
        by (simp add: PODCAST_DEFAULT_LIMIT_def)
      ultimately have "?final = ?listed" by (intro dedupe_loop_full)
      with before have "filter ?P ?final = []" by (simp add: filter_empty_conv)
      with False show ?thesis by simp
    next
      case True
      from dedupe_loop_continues [OF True] obtain seen' where
        sub: "seen' \<subseteq> {} \<union> podcast_id_of ` set xs"
        and eq: "\<forall>rest. dedupe_loop {} [] (xs @ rest) = dedupe_loop seen' ?listed rest"
        by blast
      from eq have final: "?final = dedupe_loop seen' ?listed (p # rest)" by blast
      have fresh: "podcast_id_of p \<notin> seen'"
      proof
        assume "podcast_id_of p \<in> seen'"
        with sub obtain y where "y \<in> set xs" and "podcast_id_of y = podcast_id_of p"
          by force
        with ids show False by blast
      qed
      have truthy_id: "\<not> id_falsy (podcast_id_of p)"
        using assms(2) by (simp add: idp id_falsy_def)
      have listed: "p \<in> set ?final"
      proof (cases rule: dedupe_loop_step [of p seen' ?listed])
        case skip
        with fresh truthy_id show ?thesis by blast
      next
        case unusable
        with usable show ?thesis by blast
      next
        case stop
        with final show ?thesis by simp
      next
        case go
        have "p \<in> set (?listed @ [p])" by simp
        then have "p \<in> set (dedupe_loop (insert (podcast_id_of p) seen') (?listed @ [p]) rest)"
          by (rule dedupe_loop_keeps)
        with go final show ?thesis by simp
      qed
      with assms(1) have "filter ?P ?final \<noteq> []"
        by (simp add: filter_empty_conv) blast
      then have "1 \<le> length (filter ?P ?final)"
        by (cases "filter ?P ?final") simp_all
      moreover have d: "distinct (map podcast_id_of ?final)"
        by (rule dedupe_loop_distinct) simp_all
      from key idp have "\<forall>e. ?P e \<longrightarrow> podcast_id_of e = NumberId n"
        by simp
      with d have "length (filter ?P ?final) \<le> 1"
        by (rule filter_distinct_image)
      ultimately have "length (filter ?P ?final) = 1" by simp
      with usable True show ?thesis by simp
    qed
  qed
qed

text \<open>
  Claim C6, as the code has it. The list the podcast resolver builds has at most 20
  entries, and no two of them have the same deduplication key, which is the collection
  id when that is present and not zero and the text \<open>title-author\<close> otherwise. So the
  list never has two entries with collection id 42. When the accumulated results hold an
  entry with collection id 42 and \<open>p\<close> is the first of them, the list has exactly one
  entry with that id if \<open>p\<close> has a title and a \<open>trackViewUrl\<close> and the entries accumulated
  before \<open>p\<close> leave fewer than 20 listed, and it has none otherwise.
\<close>

theorem podcasts_limited_distinct:
  "length (resolve_podcasts catalog terms) \<le> 20
   \<and> distinct (map podcast_id_of (resolve_podcasts catalog terms))
   \<and> length (filter (\<lambda>e. collectionId e = Some 42) (resolve_podcasts catalog terms)) \<le> 1
   \<and> (accumulate (fetchItunesPodcastsByTerm catalog) [] terms = xs @ p # rest \<longrightarrow>
      collectionId p = Some 42 \<longrightarrow> (\<forall>y\<in>set xs. collectionId y \<noteq> Some 42) \<longrightarrow>
        length (filter (\<lambda>e. collectionId e = Some 42) (resolve_podcasts catalog terms))
        = (if truthy (title p) \<and> truthy (trackViewUrl p) \<and> length (dedupe_loop {} [] xs) < 20
           then 1 else 0))"
proof -
  let ?all = "accumulate (fetchItunesPodcastsByTerm catalog) [] terms"
  have "length (dedupe_loop {} [] ?all) \<le> PODCAST_DEFAULT_LIMIT"
    by (rule dedupe_loop_length) (simp add: PODCAST_DEFAULT_LIMIT_def)
  then have len: "length (resolve_podcasts catalog terms) \<le> 20"
    by (simp add: resolve_podcasts_def PODCAST_DEFAULT_LIMIT_def)
  have "distinct (map podcast_id_of (dedupe_loop {} [] ?all))"
    by (rule dedupe_loop_distinct) simp_all
  then have dist: "distinct (map podcast_id_of (resolve_podcasts catalog terms))"
    by (simp add: resolve_podcasts_def)
  have "\<forall>e. collectionId e = Some 42 \<longrightarrow> podcast_id_of e = NumberId 42"
    by (simp add: podcast_id_of_def)
  with dist have most:
    "length (filter (\<lambda>e. collectionId e = Some 42) (resolve_podcasts catalog terms)) \<le> 1"
    by (rule filter_distinct_image)
  have count: "length (filter (\<lambda>e. collectionId e = Some 42) (resolve_podcasts catalog terms))
        = (if truthy (title p) \<and> truthy (trackViewUrl p) \<and> length (dedupe_loop {} [] xs) < 20
           then 1 else 0)"
    if "?all = xs @ p # rest" and "collectionId p = Some 42"
      and "\<forall>y\<in>set xs. collectionId y \<noteq> Some 42"
    using dedupe_loop_count_id [OF that(2) _ that(3), of rest] that(1)
    by (simp add: resolve_podcasts_def PODCAST_DEFAULT_LIMIT_def)
  from len dist most count show ?thesis by blast
qed


theorem podcasts_limited_distinct_witness:
  "length (filter (\<lambda>e. collectionId e = Some 42)
     (resolve_podcasts
        (catalog_returning
           [example_podcast (Some 42) (Some (js ''Calm'')) (Some (js ''https://p/42''))])
        [js ''calm'', js ''sleep''])) = 1
   \<and> length (filter (\<lambda>e. collectionId e = Some 42)
     (resolve_podcasts
        (catalog_returning [example_podcast (Some 42) None (Some (js ''https://p/42''))])
        [js ''calm'', js ''sleep''])) = 0
   \<and> resolve_podcasts
        (catalog_returning
           [example_podcast (Some 42) (Some (js ''Calm'')) (Some (js ''https://p/42''))])
        [js ''calm'', js ''sleep'']
     = [example_podcast (Some 42) (Some (js ''Calm'')) (Some (js ''https://p/42''))]"
proof -
  let ?terms = "[js ''calm'', js ''sleep'']"
  let ?p = "example_podcast (Some 42) (Some (js ''Calm'')) (Some (js ''https://p/42''))"
  let ?u = "example_podcast (Some 42) None (Some (js ''https://p/42''))"
  have acc: "accumulate (fetchItunesPodcastsByTerm (catalog_returning [e])) [] ?terms
             = [] @ e # [e]" for e
    by (simp add: fetchItunesPodcastsByTerm_def catalog_returning_def string_eval
        PODCAST_DEFAULT_LIMIT_def)
  have id: "collectionId ?p = Some 42" "collectionId ?u = Some 42"
    by (simp_all add: example_podcast_def)
  have first: "\<forall>y\<in>set ([]::podcast list). collectionId y \<noteq> Some 42"
    by simp
  have usable: "truthy (title ?p) \<and> truthy (trackViewUrl ?p) \<and> length (dedupe_loop {} [] []) < 20"
    by (simp add: example_podcast_def truthy_def js_def)
  have unusable: "\<not> (truthy (title ?u) \<and> truthy (trackViewUrl ?u)
                     \<and> length (dedupe_loop {} [] []) < 20)"
    by (simp add: example_podcast_def truthy_def)
  from podcasts_limited_distinct [of "catalog_returning [?p]" ?terms "[]" ?p "[?p]"]
    acc [of ?p] id(1) first usable
  have one: "length (filter (\<lambda>e. collectionId e = Some 42)
     (resolve_podcasts (catalog_returning [?p]) ?terms)) = 1"
    by presburger
  from podcasts_limited_distinct [of "catalog_returning [?u]" ?terms "[]" ?u "[?u]"]
    acc [of ?u] id(2) first unusable
  have none: "length (filter (\<lambda>e. collectionId e = Some 42)
     (resolve_podcasts (catalog_returning [?u]) ?terms)) = 0"
    by presburger
  have run: "resolve_podcasts (catalog_returning [?p]) ?terms = [?p]"
    by (simp add: podcast_eval string_eval catalog_returning_def)
  from one none run show ?thesis by blast
qed

text \<open>
  The claim as it was stated promises exactly one entry with id 42 whenever two terms
  return one, and one entry per collection id. When both terms return an entry with id 42
  that has no title, and two titled entries with collection id 0, the list has no entry
  with id 42 and two entries with collection id 0.
\<close>

theorem podcasts_counterexample:
  "resolve_podcasts
     (catalog_returning
        [example_podcast (Some 42) None (Some (js ''https://p/42'')),
         example_podcast (Some 0) (Some (js ''A'')) (Some (js ''https://p/a'')),
         example_podcast (Some 0) (Some (js ''B'')) (Some (js ''https://p/b''))])
     [js ''calm'', js ''sleep'']
   = [example_podcast (Some 0) (Some (js ''A'')) (Some (js ''https://p/a'')),
      example_podcast (Some 0) (Some (js ''B'')) (Some (js ''https://p/b''))]
   \<and> collectionId (example_podcast (Some 42) None (Some (js ''https://p/42''))) = Some 42
   \<and> collectionId (example_podcast (Some 0) (Some (js ''A'')) (Some (js ''https://p/a''))) = Some 0
   \<and> collectionId (example_podcast (Some 0) (Some (js ''B'')) (Some (js ''https://p/b''))) = Some 0"
  by (simp add: podcast_eval string_eval catalog_returning_def)

end
